theory Spec2Isabelle
  imports Main "HOL-Library.Word" "HOL-Library.Sublist"
begin

unbundle bit_operations_syntax

section \<open>Machine types and protocol symbols\<close>

type_synonym u8 = "8 word"
type_synonym u16 = "16 word"
type_synonym u32 = "32 word"

text \<open>df1.h: embedded symbol definitions and the system tick period.\<close>

definition SYM_STX :: u8 where "SYM_STX = 0x02"
definition SYM_ETX :: u8 where "SYM_ETX = 0x03"
definition SYM_ENQ :: u8 where "SYM_ENQ = 0x05"
definition SYM_ACK :: u8 where "SYM_ACK = 0x06"
definition SYM_NAK :: u8 where "SYM_NAK = 0x15"
definition SYM_DLE :: u8 where "SYM_DLE = 0x10"

definition TICK_USEC :: nat where "TICK_USEC = 10000"

text \<open>Modelled from the spec: common.h is not among the sources. It declares the
  client-socket message bytes; the spec (section 4.5) gives them as SOH = 0x01,
  MSG_ACK = 0x06 (the code of the DF1 ACK) and MSG_NAK = 0x15.\<close>

definition MSG_SOH :: u8 where "MSG_SOH = 0x01"
definition MSG_ACK :: u8 where "MSG_ACK = 0x06"
definition MSG_NAK :: u8 where "MSG_NAK = 0x15"

lemmas sym_defs = SYM_STX_def SYM_ETX_def SYM_ENQ_def SYM_ACK_def SYM_NAK_def SYM_DLE_def
  MSG_SOH_def MSG_ACK_def MSG_NAK_def

section \<open>Byte buffers (buf.c)\<close>

text \<open>Modelled from the spec: the BUF structure itself is declared in common.h, which
  is not among the sources; the spec (section 3) and buf.c give its fields: the
  storage \<open>data\<close>, the capacity \<open>max\<close> (here \<open>maxsz\<close>), the filled length
  \<open>len\<close> and the read cursor \<open>index\<close>. The storage is a map from offsets to
  bytes, so that bytes beyond \<open>len\<close> keep whatever was written there before, as in
  the C memory.\<close>

record BUF =
  data :: "nat \<Rightarrow> u8"
  len :: nat
  index :: nat
  maxsz :: nat

text \<open>Observations used in statements: the filled part and the part not yet read.\<close>

definition contents :: "BUF \<Rightarrow> u8 list" where
  "contents b = map (data b) [0..<len b]"

definition unread :: "BUF \<Rightarrow> u8 list" where
  "unread b = map (data b) [index b..<len b]"

definition buf_inv :: "BUF \<Rightarrow> bool" where
  "buf_inv b = (index b \<le> len b \<and> len b \<le> maxsz b)"

definition buf_empty :: "BUF \<Rightarrow> BUF" where
  "buf_empty buf = buf\<lparr>len := 0, index := 0\<rparr>"

text \<open>\<open>buf_new\<close>: malloc leaves the storage uninitialised, so it is a parameter.\<close>

definition buf_new :: "(nat \<Rightarrow> u8) \<Rightarrow> nat \<Rightarrow> BUF" where
  "buf_new mem bytes = buf_empty \<lparr>data = mem, len = 0, index = 0, maxsz = bytes\<rparr>"

text \<open>Every append returns the C return value as a flag (True for non-zero, the
  overflow) together with the buffer after the call.\<close>

definition buf_append_buf :: "BUF \<Rightarrow> BUF \<Rightarrow> bool \<times> BUF" where
  "buf_append_buf dst src =
     (let new_len = len dst + len src in
      if new_len > maxsz dst then (True, dst)
      else (False, dst\<lparr>data := (\<lambda>i. if len dst \<le> i \<and> i < new_len
                                        then data src (i - len dst) else data dst i),
                        len := new_len\<rparr>))"

definition buf_append_byte :: "BUF \<Rightarrow> u8 \<Rightarrow> bool \<times> BUF" where
  "buf_append_byte dst src =
     (if len dst = maxsz dst then (True, dst)
      else (False, dst\<lparr>data := (data dst)(len dst := src), len := len dst + 1\<rparr>))"

text \<open>byteorder.c on a little-endian host (the branch \<open>BYTE_ORDER != BIG_ENDIAN\<close>):
  link byte order is host byte order, and a 16 bit store writes the low byte first.\<close>

definition htols :: "u16 \<Rightarrow> u16" where "htols hostshort = hostshort"
definition ltohs :: "u16 \<Rightarrow> u16" where "ltohs linkshort = linkshort"

definition lo_byte :: "u16 \<Rightarrow> u8" where "lo_byte w = ucast w"
definition hi_byte :: "u16 \<Rightarrow> u8" where "hi_byte w = ucast (drop_bit 8 w)"
definition word_of_bytes :: "u8 \<Rightarrow> u8 \<Rightarrow> u16" where
  "word_of_bytes lo hi = ucast lo OR push_bit 8 (ucast hi)"

definition buf_append_word :: "BUF \<Rightarrow> u16 \<Rightarrow> bool \<times> BUF" where
  "buf_append_word dst src =
     (let new_len = len dst + 2 in
      if new_len > maxsz dst then (True, dst)
      else (False, dst\<lparr>data := (data dst)(len dst := lo_byte src, len dst + 1 := hi_byte src),
                        len := new_len\<rparr>))"

text \<open>\<open>buf_get_byte\<close>: None is the non-zero return (end of buffer). The source tests
  \<open>len == index\<close>; on every buffer with \<open>index \<le> len\<close> (\<open>buf_inv\<close>, kept by all
  of buf.c) that is the test \<open>len \<le> index\<close> used here, which also makes the loops
  that drain a buffer total.\<close>

definition buf_get_byte :: "BUF \<Rightarrow> (u8 \<times> BUF) option" where
  "buf_get_byte src =
     (if len src \<le> index src then None
      else Some (data src (index src), src\<lparr>index := index src + 1\<rparr>))"

definition buf_get_word :: "BUF \<Rightarrow> (u16 \<times> BUF) option" where
  "buf_get_word src =
     (let new_index = index src + 2 in
      if new_index > len src then None
      else Some (word_of_bytes (data src (index src)) (data src (index src + 1)),
                 src\<lparr>index := new_index\<rparr>))"

section \<open>Address elements (lib/addr.c)\<close>

definition addr_encode :: "BUF \<Rightarrow> u16 \<Rightarrow> bool \<times> BUF" where
  "addr_encode dest addr =
     (if addr > 254 then
        (case buf_append_byte dest 0xff of
           (True, d) \<Rightarrow> (True, d)
         | (False, d) \<Rightarrow> buf_append_word d (htols addr))
      else buf_append_byte dest (ucast addr))"

text \<open>\<open>addr_decode\<close> returns the decoded value (None for the return value -1) and
  the source buffer with its cursor where the call left it.\<close>

definition addr_decode :: "BUF \<Rightarrow> u16 option \<times> BUF" where
  "addr_decode src =
     (case buf_get_byte src of
        None \<Rightarrow> (None, src)
      | Some (first_byte, s) \<Rightarrow>
          if first_byte = 0xff then
            (case buf_get_word s of
               None \<Rightarrow> (None, s)
             | Some (word, s') \<Rightarrow> (Some (ltohs word), s'))
          else (Some (ucast first_byte), s))"

text \<open>The byte sequence the claim gives for an address value.\<close>

definition addr_bytes :: "u16 \<Rightarrow> u8 list" where
  "addr_bytes a = (if a \<le> 254 then [ucast a] else [0xff, lo_byte a, hi_byte a])"

section \<open>The DF1 daemon: data model (df1d/df1.h)\<close>

record link_diag_cnt =
  tx_attempts :: u32
  tx_success :: u32
  msg_rx :: u32
  acks_in :: u32
  naks_in :: u32
  resp_timeouts :: u32
  enqs_out :: u32
  tx_fail :: u32
  acks_out :: u32
  naks_out :: u32
  enqs_in :: u32
  runts :: u32
  bad_cs :: u32
  unknown_dst :: u32
  bytes_ignored :: u32
  dups :: u32
  rx_overflow :: u32

text \<open>The per-client counters carry the prefix \<open>c_\<close> where the connection has a
  counter of the same name.\<close>

record client_diag_cnt =
  c_tx_attempts :: u32
  c_tx_success :: u32
  c_tx_fail :: u32
  sink_full :: u32
  c_msg_rx :: u32
  msg_reject :: u32
  msg_accept :: u32
  rx_timeouts :: u32

datatype CLIENT_STATE_T =
  CLIENT_CONNECTED | CLIENT_REG_LEN | CLIENT_REG_NAME | CLIENT_IDLE
  | CLIENT_MSG_LEN | CLIENT_MSG | CLIENT_MSG_READY | CLIENT_MSG_PEND

text \<open>The position of a state in the enumeration, for the comparison
  \<open>state >= CLIENT_IDLE\<close> of \<open>find_addr\<close>.\<close>

fun client_state_ord :: "CLIENT_STATE_T \<Rightarrow> nat" where
  "client_state_ord CLIENT_CONNECTED = 0"
| "client_state_ord CLIENT_REG_LEN = 1"
| "client_state_ord CLIENT_REG_NAME = 2"
| "client_state_ord CLIENT_IDLE = 3"
| "client_state_ord CLIENT_MSG_LEN = 4"
| "client_state_ord CLIENT_MSG = 5"
| "client_state_ord CLIENT_MSG_READY = 6"
| "client_state_ord CLIENT_MSG_PEND = 7"

text \<open>A client. Its name, socket descriptor and registration progress play no part
  in the link layer and are left out; the \<open>next\<close> pointer is the position in the
  connection's list of clients, and a pointer to a client is an index into that list
  (None for NULL).\<close>

record CLIENT =
  cstate :: CLIENT_STATE_T
  addr :: u8
  new_msg_len :: u8
  df1_tx :: BUF
  sock_out :: BUF
  sock_in :: BUF
  cdcnts :: client_diag_cnt

datatype TX_STATE_T = TX_IDLE | TX_PEND_MSG_TX | TX_PEND_RESP

record TX =
  tx_state :: TX_STATE_T
  max_nak :: u32
  max_enq :: u32
  nak_cnt :: u32
  enq_cnt :: u32
  tx_eticks :: u32
  tx_tticks :: u32
  msg :: BUF
  tx_client :: "nat option"

datatype RX_STATE_T = RX_IDLE | RX_APP | RX_CS1 | RX_CS2 | RX_PEND

text \<open>The receiver. The two checksum unions are kept as one field per member: a
  connection only ever touches the member that its \<open>use_crc\<close> selects.\<close>

record RX =
  rx_state :: RX_STATE_T
  app :: BUF
  dup :: "u8 list"
  rx_eticks :: u32
  rx_tticks :: u32
  last_was_ack :: bool
  overflow :: bool
  dup_detect :: bool
  prev_dle :: bool
  rx_client :: "nat option"
  msg_cs_crc :: u16
  msg_cs_bcc :: u8
  acc_cs_crc :: u16
  acc_cs_bcc :: u8

record CONN =
  use_crc :: bool
  read_sym :: bool
  embed_rsp :: bool
  tty_in :: BUF
  tty_out :: BUF
  tx :: TX
  rx :: RX
  clients :: "CLIENT list"
  dcnts :: link_diag_cnt

text \<open>The macro \<open>CRC_ADD\<close>: exclusive-or the value into the CRC, then eight times
  shift right, with the polynomial 0xa001 where the bit shifted out was set.\<close>

definition crc_shift :: "u16 \<Rightarrow> u16" where
  "crc_shift crc = (if crc AND 1 \<noteq> 0 then drop_bit 1 crc XOR 0xa001 else drop_bit 1 crc)"

definition CRC_ADD :: "u16 \<Rightarrow> u8 \<Rightarrow> u16" where
  "CRC_ADD crc val = (crc_shift ^^ 8) (crc XOR ucast val)"

section \<open>Receiver responses (df1d/rx.c)\<close>

definition rx_set_nak :: "RX \<Rightarrow> RX" where
  "rx_set_nak r = r\<lparr>last_was_ack := False\<rparr>"

definition rx_active :: "RX \<Rightarrow> bool" where
  "rx_active r = (\<not> (rx_state r = RX_IDLE \<or> rx_state r = RX_PEND))"

text \<open>The two appends of a symbol pair are joined by \<open>||\<close>: the second byte is only
  appended when the first was.\<close>

definition append_sym :: "BUF \<Rightarrow> u8 \<Rightarrow> bool \<times> BUF" where
  "append_sym out symb =
     (case buf_append_byte out SYM_DLE of
        (True, b) \<Rightarrow> (True, b)
      | (False, b) \<Rightarrow> buf_append_byte b symb)"

definition rx_ack :: "CONN \<Rightarrow> CONN" where
  "rx_ack conn =
     conn\<lparr>tty_out := snd (append_sym (tty_out conn) SYM_ACK),
          rx := (rx conn)\<lparr>last_was_ack := True, rx_state := RX_IDLE, rx_client := None\<rparr>,
          dcnts := (dcnts conn)\<lparr>acks_out := acks_out (dcnts conn) + 1\<rparr>\<rparr>"

definition rx_nak :: "CONN \<Rightarrow> CONN" where
  "rx_nak conn =
     conn\<lparr>tty_out := snd (append_sym (tty_out conn) SYM_NAK),
          rx := (rx_set_nak (rx conn))\<lparr>rx_state := RX_IDLE, rx_client := None\<rparr>,
          dcnts := (dcnts conn)\<lparr>naks_out := naks_out (dcnts conn) + 1\<rparr>\<rparr>"

section \<open>Transmitter and arbitrator (df1d/tx.c, df1d/client.c)\<close>

definition tx_busy :: "TX \<Rightarrow> bool" where
  "tx_busy t = (tx_state t \<noteq> TX_IDLE)"

definition flush_msg :: "TX \<Rightarrow> TX" where
  "flush_msg t = t\<lparr>nak_cnt := 0, enq_cnt := 0, msg := buf_empty (msg t), tx_state := TX_IDLE\<rparr>"

text \<open>The loop of \<open>tx_msg\<close> that drains the client's message into the transmitter's
  buffer: it carries the client's buffer, the frame, the overflow flag and the two
  checksum accumulators.\<close>

function tx_msg_loop ::
  "bool \<Rightarrow> BUF \<Rightarrow> BUF \<Rightarrow> bool \<Rightarrow> u16 \<Rightarrow> u8 \<Rightarrow> BUF \<times> BUF \<times> bool \<times> u16 \<times> u8" where
  "tx_msg_loop crc_mode df1 m ovf crc bcc =
     (case buf_get_byte df1 of
        None \<Rightarrow> (df1, m, ovf, crc, bcc)
      | Some (byte, df1') \<Rightarrow>
          (let (e1, m1) = buf_append_byte m byte;
               crc' = (if crc_mode then CRC_ADD crc byte else crc);
               bcc' = (if crc_mode then bcc else bcc + byte);
               (e2, m2) = (if byte = SYM_DLE then buf_append_byte m1 SYM_DLE else (False, m1))
           in tx_msg_loop crc_mode df1' m2 (ovf \<or> e1 \<or> e2) crc' bcc'))"
  by pat_completeness auto
termination
  by (relation "measure (\<lambda>(crc_mode, df1, m, ovf, crc, bcc). len df1 - index df1)")
     (auto simp: buf_get_byte_def split: if_splits)

declare tx_msg_loop.simps [simp del]

text \<open>The frame that \<open>tx_msg\<close> assembles in the transmitter's buffer, up to the
  assignment of \<open>conn->tx.client\<close>: the client's buffer after the read, the frame
  and the overflow flag.\<close>

definition tx_msg_frame :: "bool \<Rightarrow> BUF \<Rightarrow> BUF \<Rightarrow> BUF \<times> BUF \<times> bool" where
  "tx_msg_frame crc_mode df1 m =
     (let (e1, m1) = buf_append_byte m SYM_DLE;
          (e2, m2) = buf_append_byte m1 SYM_STX;
          (df1', m3, ovf, crc, bcc) = tx_msg_loop crc_mode df1 m2 (e1 \<or> e2) 0 0;
          (e3, m4) = buf_append_byte m3 SYM_DLE;
          (e4, m5) = buf_append_byte m4 SYM_ETX;
          (e5, m6) = (if crc_mode then buf_append_word m5 (htols (CRC_ADD crc SYM_ETX))
                      else buf_append_byte m5 (NOT bcc + 1))
      in (df1', m6, ovf \<or> e3 \<or> e4 \<or> e5))"

text \<open>The search of \<open>find_next_tx\<close>: the clients in list order from the starting
  one, wrapping to the head of the list, up to but excluding the starting one again;
  the first in state \<open>CLIENT_MSG_READY\<close> is chosen. (The starting client is always
  a client of the list; \<open>min\<close> only keeps the scan inside the list otherwise.)\<close>

definition scan_order :: "nat \<Rightarrow> nat \<Rightarrow> nat list" where
  "scan_order n start = [start..<n] @ [0..<min start n]"

definition next_ready :: "CLIENT list \<Rightarrow> nat \<Rightarrow> nat option" where
  "next_ready cs start =
     find (\<lambda>i. cstate (cs ! i) = CLIENT_MSG_READY) (scan_order (length cs) start)"

definition start_client_of :: "CONN \<Rightarrow> nat option \<Rightarrow> nat" where
  "start_client_of conn start_client =
     (case start_client of
        Some s \<Rightarrow> s
      | None \<Rightarrow>
          (case tx_client (tx conn) of
             None \<Rightarrow> 0
           | Some c \<Rightarrow> if c + 1 < length (clients conn) then c + 1 else 0))"

text \<open>The measure for the mutual recursion below: the clients with a message ready,
  not counting the one the transmitter points to.\<close>

definition ready_others :: "CLIENT list \<Rightarrow> nat option \<Rightarrow> nat" where
  "ready_others cs p =
     card {i. i < length cs \<and> Some i \<noteq> p \<and> cstate (cs ! i) = CLIENT_MSG_READY}"

lemma next_ready_Some:
  assumes "next_ready cs s = Some i"
  shows "i < length cs" and "cstate (cs ! i) = CLIENT_MSG_READY"
proof -
  from assms have "i \<in> set (scan_order (length cs) s)"
    and r: "cstate (cs ! i) = CLIENT_MSG_READY"
    by (auto simp: next_ready_def find_Some_iff)
  then show "i < length cs" by (auto simp: scan_order_def)
  from r show "cstate (cs ! i) = CLIENT_MSG_READY" .
qed

lemma ready_others_pick:
  assumes "i < length cs" and "cstate (cs ! i) = CLIENT_MSG_READY"
  shows "ready_others cs None = Suc (ready_others cs (Some i))"
proof -
  let ?S = "{j. j < length cs \<and> Some j \<noteq> Some i \<and> cstate (cs ! j) = CLIENT_MSG_READY}"
  have fin: "finite ?S" by simp
  have ni: "i \<notin> ?S" by simp
  have "{j. j < length cs \<and> Some j \<noteq> None \<and> cstate (cs ! j) = CLIENT_MSG_READY} = insert i ?S"
    using assms by auto
  then show ?thesis
    using fin ni by (simp add: ready_others_def)
qed

lemma ready_others_update_same:
  "ready_others (cs[i := c]) (Some i) = ready_others cs (Some i)"
proof -
  have "{j. j < length (cs[i := c]) \<and> Some j \<noteq> Some i \<and> cstate (cs[i := c] ! j) = CLIENT_MSG_READY}
      = {j. j < length cs \<and> Some j \<noteq> Some i \<and> cstate (cs ! j) = CLIENT_MSG_READY}"
    by auto
  then show ?thesis by (simp add: ready_others_def)
qed

lemma ready_others_update_idle:
  assumes "cstate c \<noteq> CLIENT_MSG_READY"
  shows "ready_others (cs[i := c]) None = ready_others cs (Some i)"
proof -
  have "(cstate (cs[i := c] ! j) = CLIENT_MSG_READY)
       = (j \<noteq> i \<and> cstate (cs ! j) = CLIENT_MSG_READY)" if "j < length cs" for j
    using assms that by (cases "j = i") simp_all
  then have "{j. j < length (cs[i := c]) \<and> Some j \<noteq> None \<and> cstate (cs[i := c] ! j) = CLIENT_MSG_READY}
      = {j. j < length cs \<and> Some j \<noteq> Some i \<and> cstate (cs ! j) = CLIENT_MSG_READY}"
    by auto
  then show ?thesis by (simp add: ready_others_def)
qed

function find_next_tx :: "CONN \<Rightarrow> nat option \<Rightarrow> CONN"
  and tx_msg :: "CONN \<Rightarrow> nat \<Rightarrow> CONN"
  and send_msg :: "CONN \<Rightarrow> CONN"
  and client_msg_tx_fail :: "CONN \<Rightarrow> CONN"
where
  "find_next_tx conn start_client =
     (if tx_busy (tx conn) then conn
      else if clients conn = [] then conn
      else
        (case next_ready (clients conn) (start_client_of conn start_client) of
           None \<Rightarrow> conn
         | Some client \<Rightarrow>
             (let conn1 = tx_msg conn client;
                  cl = clients conn1 ! client;
                  d = cdcnts cl
              in conn1\<lparr>clients := (clients conn1)
                         [client := cl\<lparr>df1_tx := buf_empty (df1_tx cl),
                                       cstate := CLIENT_MSG_PEND,
                                       cdcnts := d\<lparr>c_tx_attempts := c_tx_attempts d + 1\<rparr>\<rparr>]\<rparr>)))"
| "tx_msg conn client =
     (let cl = clients conn ! client;
          fr = tx_msg_frame (use_crc conn) (df1_tx cl) (msg (tx conn));
          conn1 = conn\<lparr>clients := (clients conn)[client := cl\<lparr>df1_tx := fst fr\<rparr>],
                       tx := (tx conn)\<lparr>msg := fst (snd fr), tx_client := Some client\<rparr>\<rparr>;
          conn2 = send_msg conn1
      in conn2\<lparr>dcnts := (dcnts conn2)\<lparr>tx_attempts := tx_attempts (dcnts conn2) + 1\<rparr>\<rparr>)"
| "send_msg conn =
     (let conn1 = conn\<lparr>tx := (tx conn)\<lparr>tx_state := TX_PEND_MSG_TX\<rparr>\<rparr> in
      case buf_append_buf (tty_out conn1) (msg (tx conn1)) of
        (True, out) \<Rightarrow> client_msg_tx_fail (conn1\<lparr>tx := flush_msg (tx conn1)\<rparr>)
      | (False, out) \<Rightarrow> conn1\<lparr>tty_out := out\<rparr>)"
| "client_msg_tx_fail conn =
     (let conn1 =
            (case tx_client (tx conn) of
               Some c \<Rightarrow>
                 (let cl = clients conn ! c;
                      d = cdcnts cl
                  in conn\<lparr>clients := (clients conn)
                            [c := cl\<lparr>sock_out := snd (buf_append_byte (sock_out cl) MSG_NAK),
                                     cstate := CLIENT_IDLE,
                                     cdcnts := d\<lparr>c_tx_fail := c_tx_fail d + 1\<rparr>\<rparr>]\<rparr>)
             | None \<Rightarrow> conn)
      in find_next_tx conn1 None)"
  by pat_completeness auto
termination
proof (relation "measure (\<lambda>x. case x of
            Inl (Inl (conn, s)) \<Rightarrow> 4 * ready_others (clients conn) None
          | Inl (Inr (conn, i)) \<Rightarrow> 4 * ready_others (clients conn) (Some i) + 3
          | Inr (Inl conn) \<Rightarrow> 4 * ready_others (clients conn) (tx_client (tx conn)) + 2
          | Inr (Inr conn) \<Rightarrow> 4 * ready_others (clients conn) (tx_client (tx conn)) + 1)",
       goal_cases)
  case 1
  show ?case by simp
next
  case (2 conn start_client client)
  from 2(3) show ?case
    using next_ready_Some[of "clients conn" _ client] ready_others_pick[of client "clients conn"]
    by simp
next
  case 3
  then show ?case by (simp add: ready_others_update_same)
next
  case 4
  then show ?case by (simp add: flush_msg_def)
next
  case (5 conn)
  then show ?case
    by (cases "tx_client (tx conn)") (simp_all add: Let_def ready_others_update_idle)
qed

declare find_next_tx.simps [simp del] tx_msg.simps [simp del] send_msg.simps [simp del]
  client_msg_tx_fail.simps [simp del]

text \<open>None of the four functions touches the bytes received from the TTY; the loops
  of the receiver below rest on this to terminate.\<close>

lemma tty_in_arbitrator:
  "tty_in (find_next_tx conn start_client) = tty_in conn"
  "tty_in (tx_msg conn client) = tty_in conn"
  "tty_in (send_msg conn) = tty_in conn"
  "tty_in (client_msg_tx_fail conn) = tty_in conn"
proof (induction conn start_client and conn client and conn and conn
       rule: find_next_tx_tx_msg_send_msg_client_msg_tx_fail.induct)
  case (1 conn start_client)
  then show ?case
    by (subst find_next_tx.simps) (simp add: Let_def split: option.splits)
next
  case (2 conn client)
  then show ?case
    by (subst tx_msg.simps) (simp add: Let_def)
next
  case (3 conn)
  then show ?case
    by (subst send_msg.simps) (simp add: Let_def split: prod.splits bool.splits)
next
  case (4 conn)
  then show ?case
    by (subst client_msg_tx_fail.simps) (simp add: Let_def split: option.splits)
qed

definition client_msg_tx_ok :: "CONN \<Rightarrow> CONN" where
  "client_msg_tx_ok conn =
     (let conn1 =
            (case tx_client (tx conn) of
               Some c \<Rightarrow>
                 (let cl = clients conn ! c;
                      d = cdcnts cl
                  in conn\<lparr>clients := (clients conn)
                            [c := cl\<lparr>sock_out := snd (buf_append_byte (sock_out cl) MSG_ACK),
                                     cstate := CLIENT_IDLE,
                                     cdcnts := d\<lparr>c_tx_success := c_tx_success d + 1\<rparr>\<rparr>]\<rparr>)
             | None \<Rightarrow> conn)
      in find_next_tx conn1 None)"

text \<open>\<open>tx_init\<close> and \<open>rx_init\<close> without the allocation failure: the fresh storage
  of the buffer is a parameter.\<close>

definition TX_BUF_SIZE :: nat where "TX_BUF_SIZE = 512"
definition RX_BUF_SIZE :: nat where "RX_BUF_SIZE = 512"
definition TTY_BUF_SIZE :: nat where "TTY_BUF_SIZE = 512"
definition CLIENT_BUF_SIZE :: nat where "CLIENT_BUF_SIZE = 512"

definition tx_init :: "(nat \<Rightarrow> u8) \<Rightarrow> CONN \<Rightarrow> u32 \<Rightarrow> u32 \<Rightarrow> u32 \<Rightarrow> CONN" where
  "tx_init mem conn max_nak_arg max_enq_arg ack_timeout =
     conn\<lparr>tx := (tx conn)\<lparr>msg := buf_new mem TX_BUF_SIZE,
                            max_nak := max_nak_arg,
                            max_enq := max_enq_arg,
                            tx_state := TX_IDLE,
                            tx_tticks := ack_timeout div of_nat (TICK_USEC div 1000)\<rparr>\<rparr>"

definition tx_data_sent :: "CONN \<Rightarrow> CONN" where
  "tx_data_sent conn =
     (if tx_state (tx conn) = TX_PEND_MSG_TX
      then conn\<lparr>tx := (tx conn)\<lparr>tx_state := TX_PEND_RESP, tx_eticks := 0\<rparr>\<rparr>
      else conn)"

definition send_enq :: "CONN \<Rightarrow> CONN" where
  "send_enq conn =
     (let conn1 = conn\<lparr>tx := (tx conn)\<lparr>tx_state := TX_PEND_MSG_TX\<rparr>\<rparr> in
      case append_sym (tty_out conn1) SYM_ENQ of
        (True, out) \<Rightarrow>
          client_msg_tx_fail (conn1\<lparr>tty_out := out, tx := flush_msg (tx conn1)\<rparr>)
      | (False, out) \<Rightarrow> conn1\<lparr>tty_out := out\<rparr>)"

text \<open>\<open>tx_tick\<close>: the elapsed ticks are only advanced (by the \<open>++\<close> inside the
  condition) when the state is \<open>TX_PEND_RESP\<close>.\<close>

definition tx_tick :: "CONN \<Rightarrow> CONN" where
  "tx_tick conn =
     (if \<not> embed_rsp conn \<and> rx_active (rx conn) then conn
      else if tx_state (tx conn) = TX_PEND_RESP then
        (let conn1 = conn\<lparr>tx := (tx conn)\<lparr>tx_eticks := tx_eticks (tx conn) + 1\<rparr>\<rparr> in
         if tx_eticks (tx conn1) > tx_tticks (tx conn1) then
           (let conn2 = conn1\<lparr>dcnts := (dcnts conn1)
                              \<lparr>resp_timeouts := resp_timeouts (dcnts conn1) + 1\<rparr>\<rparr>;
                conn3 = conn2\<lparr>tx := (tx conn2)\<lparr>enq_cnt := enq_cnt (tx conn2) + 1\<rparr>\<rparr>
            in if enq_cnt (tx conn3) > max_enq (tx conn3) then
                 (let conn4 = conn3\<lparr>tx := flush_msg (tx conn3)\<rparr>;
                      conn5 = conn4\<lparr>dcnts := (dcnts conn4)\<lparr>tx_fail := tx_fail (dcnts conn4) + 1\<rparr>\<rparr>
                  in client_msg_tx_fail conn5)
               else send_enq conn3)
         else conn1)
      else conn)"

definition tx_ack :: "CONN \<Rightarrow> CONN" where
  "tx_ack conn =
     (if tx_state (tx conn) = TX_PEND_RESP then
        (let conn1 = conn\<lparr>tx := flush_msg (tx conn)\<rparr>;
             conn2 = conn1\<lparr>dcnts := (dcnts conn1)\<lparr>tx_success := tx_success (dcnts conn1) + 1\<rparr>\<rparr>
         in client_msg_tx_ok conn2)
      else
        conn\<lparr>rx := rx_set_nak (rx conn),
             dcnts := (dcnts conn)\<lparr>bytes_ignored := bytes_ignored (dcnts conn) + 2\<rparr>\<rparr>)"

definition tx_nak :: "CONN \<Rightarrow> CONN" where
  "tx_nak conn =
     (if tx_state (tx conn) = TX_PEND_RESP then
        (let conn1 = conn\<lparr>tx := (tx conn)\<lparr>nak_cnt := nak_cnt (tx conn) + 1\<rparr>\<rparr> in
         if nak_cnt (tx conn1) \<ge> max_nak (tx conn1) then
           (let conn2 = conn1\<lparr>tx := flush_msg (tx conn1)\<rparr>;
                conn3 = conn2\<lparr>dcnts := (dcnts conn2)\<lparr>tx_fail := tx_fail (dcnts conn2) + 1\<rparr>\<rparr>
            in client_msg_tx_fail conn3)
         else send_msg conn1)
      else
        conn\<lparr>rx := rx_set_nak (rx conn),
             dcnts := (dcnts conn)\<lparr>bytes_ignored := bytes_ignored (dcnts conn) + 2\<rparr>\<rparr>)"

section \<open>Receiver (df1d/rx.c) and delivery to clients (df1d/client.c)\<close>

definition rx_init :: "(nat \<Rightarrow> u8) \<Rightarrow> CONN \<Rightarrow> bool \<Rightarrow> CONN" where
  "rx_init mem conn dup_detect_arg =
     conn\<lparr>rx := (rx_set_nak ((rx conn)\<lparr>app := buf_new mem RX_BUF_SIZE,
                                        dup_detect := dup_detect_arg\<rparr>))
                 \<lparr>rx_state := RX_IDLE,
                  rx_tticks := of_nat (5000000 div TICK_USEC + 1)\<rparr>\<rparr>"

definition rx_tick :: "CONN \<Rightarrow> CONN" where
  "rx_tick conn =
     (if rx_state (rx conn) = RX_IDLE \<or> rx_state (rx conn) = RX_PEND then conn
      else
        (let conn1 = conn\<lparr>rx := (rx conn)\<lparr>rx_eticks := rx_eticks (rx conn) + 1\<rparr>\<rparr> in
         if rx_eticks (rx conn1) > rx_tticks (rx conn1)
         then conn1\<lparr>rx := rx_set_nak ((rx conn1)\<lparr>rx_state := RX_IDLE\<rparr>)\<rparr>
         else conn1))"

definition cs_clear :: "CONN \<Rightarrow> CONN" where
  "cs_clear conn =
     (if use_crc conn then conn\<lparr>rx := (rx conn)\<lparr>acc_cs_crc := 0\<rparr>\<rparr>
      else conn\<lparr>rx := (rx conn)\<lparr>acc_cs_bcc := 0\<rparr>\<rparr>)"

definition cs_add :: "CONN \<Rightarrow> u8 \<Rightarrow> CONN" where
  "cs_add conn x =
     (if use_crc conn
      then conn\<lparr>rx := (rx conn)\<lparr>acc_cs_crc := CRC_ADD (acc_cs_crc (rx conn)) x\<rparr>\<rparr>
      else conn\<lparr>rx := (rx conn)\<lparr>acc_cs_bcc := acc_cs_bcc (rx conn) + x\<rparr>\<rparr>)"

definition cs_ok :: "CONN \<Rightarrow> bool" where
  "cs_ok conn =
     (let (acc, rcv) =
            (if use_crc conn then (acc_cs_crc (rx conn), msg_cs_crc (rx conn))
             else (let bcc = NOT (acc_cs_bcc (rx conn)) + 1
                   in (ucast bcc :: u16, ucast (msg_cs_bcc (rx conn)))))
      in acc = rcv)"

definition embed_rsp_fn :: "CONN \<Rightarrow> u8 \<Rightarrow> CONN" where
  "embed_rsp_fn con rsp =
     (let con1 = (if \<not> embed_rsp con then con\<lparr>embed_rsp := True\<rparr> else con) in
      if rsp = SYM_ACK then tx_ack con1 else tx_nak con1)"

text \<open>\<open>add_to_app\<close>: each case of the switch either returns (Some) or breaks (None)
  to the common tail that stores the byte.\<close>

definition add_to_app :: "CONN \<Rightarrow> u8 \<Rightarrow> CONN" where
  "add_to_app conn byte =
     (let r = rx conn;
          early =
            (if byte = SYM_ETX then
               (if prev_dle r then
                  Some (let conn1 = (if use_crc conn then cs_add conn SYM_ETX else conn)
                        in conn1\<lparr>rx := (rx conn1)\<lparr>rx_state := RX_CS1\<rparr>\<rparr>)
                else None)
             else if byte = SYM_DLE then
               (if \<not> prev_dle r then Some (conn\<lparr>rx := r\<lparr>prev_dle := True\<rparr>\<rparr>) else None)
             else if byte = SYM_ACK \<or> byte = SYM_NAK then
               (if prev_dle r then Some (embed_rsp_fn (conn\<lparr>rx := r\<lparr>prev_dle := False\<rparr>\<rparr>) byte)
                else None)
             else
               (if prev_dle r then Some (conn\<lparr>rx := rx_set_nak r\<rparr>) else None))
      in case early of
           Some c \<Rightarrow> c
         | None \<Rightarrow>
             (let conn1 = conn\<lparr>rx := r\<lparr>prev_dle := False\<rparr>\<rparr>;
                  conn2 =
                    (if overflow (rx conn1) then conn1
                     else (case buf_append_byte (app (rx conn1)) byte of
                             (True, a) \<Rightarrow>
                               conn1\<lparr>rx := (rx conn1)\<lparr>app := a, overflow := True\<rparr>,
                                     dcnts := (dcnts conn1)
                                        \<lparr>rx_overflow := rx_overflow (dcnts conn1) + 1\<rparr>\<rparr>
                           | (False, a) \<Rightarrow> conn1\<lparr>rx := (rx conn1)\<lparr>app := a\<rparr>\<rparr>))
              in cs_add conn2 byte))"

text \<open>\<open>msg_dup\<close> returns its result and the connection with the counter and the
  stored bytes updated.\<close>

definition msg_dup :: "CONN \<Rightarrow> bool \<times> CONN" where
  "msg_dup conn =
     (if \<not> dup_detect (rx conn) then (False, conn)
      else
        (let a = app (rx conn);
             d = dup (rx conn);
             is_dup = (data a 1 = d ! 0 \<and> data a 2 = d ! 1 \<and> data a 4 = d ! 2 \<and> data a 5 = d ! 3);
             conn1 = (if is_dup
                      then conn\<lparr>dcnts := (dcnts conn)\<lparr>dups := dups (dcnts conn) + 1\<rparr>\<rparr>
                      else conn)
         in (is_dup,
             conn1\<lparr>rx := (rx conn1)\<lparr>dup := [data a 1, data a 2, data a 4, data a 5]\<rparr>\<rparr>)))"

definition find_addr :: "CONN \<Rightarrow> u8 \<Rightarrow> nat option" where
  "find_addr conn a =
     find (\<lambda>i. client_state_ord (cstate (clients conn ! i)) \<ge> client_state_ord CLIENT_IDLE
               \<and> addr (clients conn ! i) = a)
          [0..<length (clients conn)]"

text \<open>\<open>client_msg_rx\<close>. The result of the first \<open>buf_get_byte\<close> is not tested by
  the source; the receiver only calls with at least six bytes to read, and \<open>dst\<close>
  is left unspecified otherwise. The three appends to the client's socket buffer
  are made one after the other whatever the earlier ones returned, also after the
  branch that rejects the message because the buffer is too full.\<close>

definition client_msg_rx :: "CONN \<Rightarrow> CONN" where
  "client_msg_rx conn =
     (let (dst, a) = (case buf_get_byte (app (rx conn)) of
                        None \<Rightarrow> (undefined, app (rx conn))
                      | Some (b, a') \<Rightarrow> (b, a'));
          conn0 = conn\<lparr>rx := (rx conn)\<lparr>app := a\<rparr>\<rparr>
      in case find_addr conn0 dst of
           None \<Rightarrow>
             rx_ack (conn0\<lparr>dcnts := (dcnts conn0)\<lparr>unknown_dst := unknown_dst (dcnts conn0) + 1\<rparr>\<rparr>)
         | Some client \<Rightarrow>
             (let new_len = len (sock_out (clients conn0 ! client)) + len (app (rx conn0)) + 2;
                  conn1 =
                    (if new_len > maxsz (sock_out (clients conn0 ! client)) then
                       (let c1 = rx_nak conn0;
                            cl = clients c1 ! client;
                            d = cdcnts cl
                        in c1\<lparr>clients := (clients c1)
                                 [client := cl\<lparr>cdcnts := d\<lparr>sink_full := sink_full d + 1\<rparr>\<rparr>]\<rparr>)
                     else conn0);
                  cl = clients conn1 ! client;
                  s1 = snd (buf_append_byte (sock_out cl) MSG_SOH);
                  s2 = snd (buf_append_byte s1 (of_nat (len (app (rx conn1)))));
                  s3 = snd (buf_append_buf s2 (app (rx conn1)));
                  d = cdcnts cl
              in conn1\<lparr>clients := (clients conn1)
                          [client := cl\<lparr>sock_out := s3,
                                        cdcnts := d\<lparr>c_msg_rx := c_msg_rx d + 1\<rparr>\<rparr>],
                        rx := (rx conn1)\<lparr>rx_client := Some client\<rparr>\<rparr>))"

definition accept_msg :: "CONN \<Rightarrow> CONN" where
  "accept_msg conn =
     (if len (app (rx conn)) < 6 then
        rx_nak (conn\<lparr>dcnts := (dcnts conn)\<lparr>runts := runts (dcnts conn) + 1\<rparr>\<rparr>)
      else if cs_ok conn then
        (case msg_dup conn of
           (True, conn1) \<Rightarrow> rx_ack conn1
         | (False, conn1) \<Rightarrow>
             client_msg_rx
               (conn1\<lparr>dcnts := (dcnts conn1)\<lparr>msg_rx := msg_rx (dcnts conn1) + 1\<rparr>,
                      rx := (rx conn1)\<lparr>rx_state := RX_PEND\<rparr>\<rparr>))
      else
        rx_nak (conn\<lparr>dcnts := (dcnts conn)\<lparr>bad_cs := bad_cs (dcnts conn) + 1\<rparr>\<rparr>))"

lemma tty_in_tx_ack [simp]: "tty_in (tx_ack conn) = tty_in conn"
  by (simp add: tx_ack_def client_msg_tx_ok_def Let_def tty_in_arbitrator split: option.splits)

lemma tty_in_tx_nak [simp]: "tty_in (tx_nak conn) = tty_in conn"
  by (simp add: tx_nak_def Let_def tty_in_arbitrator)

lemma tty_in_rx_ack [simp]: "tty_in (rx_ack conn) = tty_in conn"
  by (simp add: rx_ack_def)

lemma tty_in_rx_nak [simp]: "tty_in (rx_nak conn) = tty_in conn"
  by (simp add: rx_nak_def)

lemma tty_in_add_to_app [simp]: "tty_in (add_to_app conn byte) = tty_in conn"
  by (simp add: add_to_app_def embed_rsp_fn_def cs_add_def Let_def split: prod.splits bool.splits)

lemma tty_in_client_msg_rx [simp]: "tty_in (client_msg_rx conn) = tty_in conn"
  by (simp add: client_msg_rx_def Let_def split: option.splits prod.splits)

lemma tty_in_accept_msg [simp]: "tty_in (accept_msg conn) = tty_in conn"
  by (simp add: accept_msg_def msg_dup_def Let_def split: prod.splits bool.splits)

text \<open>The loop of \<open>rx_msg\<close> over the bytes left in the TTY input buffer.\<close>

function rx_msg_loop :: "CONN \<Rightarrow> CONN" where
  "rx_msg_loop conn =
     (case buf_get_byte (tty_in conn) of
        None \<Rightarrow> conn
      | Some (byte, t) \<Rightarrow>
          (let conn1 = conn\<lparr>tty_in := t\<rparr> in
           case rx_state (rx conn1) of
             RX_APP \<Rightarrow> rx_msg_loop (add_to_app conn1 byte)
           | RX_CS1 \<Rightarrow>
               if use_crc conn1
               then rx_msg_loop (conn1\<lparr>rx := (rx conn1)\<lparr>msg_cs_crc := ucast byte,
                                                       rx_state := RX_CS2\<rparr>\<rparr>)
               else accept_msg (conn1\<lparr>rx := (rx conn1)\<lparr>msg_cs_bcc := byte\<rparr>\<rparr>)
           | RX_CS2 \<Rightarrow>
               accept_msg (conn1\<lparr>rx := (rx conn1)
                             \<lparr>msg_cs_crc := msg_cs_crc (rx conn1) + push_bit 8 (ucast byte)\<rparr>\<rparr>)
           | RX_IDLE \<Rightarrow> rx_msg_loop conn1
           | RX_PEND \<Rightarrow> rx_msg_loop conn1))"
  by pat_completeness auto
termination
  by (relation "measure (\<lambda>conn. len (tty_in conn) - index (tty_in conn))")
     (auto simp: buf_get_byte_def split: if_splits)

declare rx_msg_loop.simps [simp del]

definition rx_msg :: "CONN \<Rightarrow> CONN" where
  "rx_msg conn =
     (let conn1 =
            (if rx_state (rx conn) = RX_IDLE then
               (let c = conn\<lparr>rx := (rx conn)\<lparr>app := buf_empty (app (rx conn)),
                                             rx_eticks := 0,
                                             prev_dle := False,
                                             overflow := False\<rparr>\<rparr>;
                    c' = cs_clear c
                in c'\<lparr>rx := (rx c')\<lparr>rx_state := RX_APP\<rparr>\<rparr>)
             else conn)
      in rx_msg_loop conn1)"

text \<open>\<open>rx_enq\<close>. In state \<open>RX_PEND\<close> the source dereferences the receiver's client
  pointer; the model counts the timeout on that client when there is one.\<close>

definition rx_enq :: "CONN \<Rightarrow> CONN" where
  "rx_enq conn =
     (if rx_state (rx conn) = RX_PEND then
        (let conn1 =
               (case rx_client (rx conn) of
                  Some c \<Rightarrow>
                    (let cl = clients conn ! c; d = cdcnts cl
                     in conn\<lparr>clients := (clients conn)
                               [c := cl\<lparr>cdcnts := d\<lparr>rx_timeouts := rx_timeouts d + 1\<rparr>\<rparr>]\<rparr>)
                | None \<Rightarrow> conn)
         in rx_ack conn1)
      else if last_was_ack (rx conn) then rx_ack conn
      else rx_nak conn)"

lemma tty_in_rx_msg_loop: "index (tty_in conn) \<le> index (tty_in (rx_msg_loop conn))
    \<and> len (tty_in (rx_msg_loop conn)) = len (tty_in conn)"
proof (induction conn rule: rx_msg_loop.induct)
  case (1 conn)
  show ?case
  proof (cases "buf_get_byte (tty_in conn)")
    case None
    then show ?thesis by (subst (1 2) rx_msg_loop.simps) simp
  next
    case (Some p)
    obtain byte t where p: "p = (byte, t)" by (cases p)
    from Some p have t: "index t = Suc (index (tty_in conn))" "len t = len (tty_in conn)"
      by (auto simp: buf_get_byte_def split: if_splits)
    show ?thesis
      using 1[OF Some[unfolded p] refl refl] Some p t
      by (subst (1 2) rx_msg_loop.simps)
         (cases "rx_state (rx conn)"; simp add: Let_def; fastforce)
  qed
qed

lemma tty_in_rx_msg: "len (tty_in (rx_msg conn)) - index (tty_in (rx_msg conn))
    \<le> len (tty_in conn) - index (tty_in conn)"
proof -
  have "tty_in (cs_clear c) = tty_in c" for c by (simp add: cs_clear_def)
  then show ?thesis
    using tty_in_rx_msg_loop[of "if rx_state (rx conn) = RX_IDLE then
               (let c = conn\<lparr>rx := (rx conn)\<lparr>app := buf_empty (app (rx conn)),
                                             rx_eticks := 0,
                                             prev_dle := False,
                                             overflow := False\<rparr>\<rparr>;
                    c' = cs_clear c
                in c'\<lparr>rx := (rx c')\<lparr>rx_state := RX_APP\<rparr>\<rparr>)
             else conn"]
    by (auto simp: rx_msg_def Let_def)
qed

lemma tty_in_rx_enq [simp]: "tty_in (rx_enq conn) = tty_in conn"
  by (simp add: rx_enq_def Let_def split: option.splits)

section \<open>Connection (df1d/conn.c, df1d/tty.c)\<close>

text \<open>The bottom of the loop body of \<open>parse_tty_data\<close>, reached by every byte that
  is not a symbol after a DLE.\<close>

definition link_byte :: "CONN \<Rightarrow> u8 \<Rightarrow> CONN" where
  "link_byte conn byte =
     (if byte = SYM_DLE then conn\<lparr>read_sym := True\<rparr>
      else conn\<lparr>dcnts := (dcnts conn)\<lparr>bytes_ignored := bytes_ignored (dcnts conn) + 1\<rparr>,
                rx := rx_set_nak (rx conn),
                read_sym := False\<rparr>)"

lemma tty_in_link_byte [simp]: "tty_in (link_byte conn byte) = tty_in conn"
  by (simp add: link_byte_def)

lemma parse_tty_data_step:
  assumes "buf_get_byte (tty_in (if rx_active (rx conn) then rx_msg conn else conn)) = Some (byte, t)"
  shows "len t - index t < len (tty_in conn) - index (tty_in conn)"
proof -
  let ?c = "if rx_active (rx conn) then rx_msg conn else conn"
  have "len (tty_in ?c) - index (tty_in ?c) \<le> len (tty_in conn) - index (tty_in conn)"
    using tty_in_rx_msg[of conn] by simp
  moreover from assms have "len t - index t < len (tty_in ?c) - index (tty_in ?c)"
    by (auto simp: buf_get_byte_def split: if_splits)
  ultimately show ?thesis by simp
qed

function parse_tty_data :: "CONN \<Rightarrow> CONN" where
  "parse_tty_data conn =
     (let conn1 = (if rx_active (rx conn) then rx_msg conn else conn) in
      case buf_get_byte (tty_in conn1) of
        None \<Rightarrow> conn1
      | Some (byte, t) \<Rightarrow>
          (let conn2 = conn1\<lparr>tty_in := t\<rparr> in
           if read_sym conn2 then
             (let conn3 = conn2\<lparr>read_sym := False\<rparr>;
                  d = dcnts conn3
              in if byte = SYM_STX then parse_tty_data (rx_msg conn3)
                 else if byte = SYM_ENQ then
                   parse_tty_data (rx_enq (conn3\<lparr>dcnts := d\<lparr>enqs_in := enqs_in d + 1\<rparr>\<rparr>))
                 else if byte = SYM_ACK then
                   parse_tty_data (tx_ack (conn3\<lparr>dcnts := d\<lparr>acks_in := acks_in d + 1\<rparr>\<rparr>))
                 else if byte = SYM_NAK then
                   parse_tty_data (tx_nak (conn3\<lparr>dcnts := d\<lparr>naks_in := naks_in d + 1\<rparr>\<rparr>))
                 else
                   parse_tty_data
                     (link_byte (conn3\<lparr>dcnts := d\<lparr>bytes_ignored := bytes_ignored d + 1\<rparr>,
                                       rx := rx_set_nak (rx conn3)\<rparr>) byte))
           else parse_tty_data (link_byte conn2 byte)))"
  by pat_completeness auto

termination
proof (relation "measure (\<lambda>conn. len (tty_in conn) - index (tty_in conn))", goal_cases)
  case 1
  show ?case by simp
next
  case (2 conn x x2 xa y xb xc xd)
  then have g: "buf_get_byte (tty_in (if rx_active (rx conn) then rx_msg conn else conn))
                  = Some (SYM_STX, y)" by simp
  from 2 have y: "tty_in xc = y" by simp
  show ?case
    using parse_tty_data_step[OF g] tty_in_rx_msg[of xc] y by simp
next
  case (3 conn x x2 xa y xb xc xd)
  then have g: "buf_get_byte (tty_in (if rx_active (rx conn) then rx_msg conn else conn))
                  = Some (SYM_ENQ, y)" by simp
  from 3 have y: "tty_in xc = y" by simp
  show ?case using parse_tty_data_step[OF g] y by simp
next
  case (4 conn x x2 xa y xb xc xd)
  then have g: "buf_get_byte (tty_in (if rx_active (rx conn) then rx_msg conn else conn))
                  = Some (SYM_ACK, y)" by simp
  from 4 have y: "tty_in xc = y" by simp
  show ?case using parse_tty_data_step[OF g] y by simp
next
  case (5 conn x x2 xa y xb xc xd)
  then have g: "buf_get_byte (tty_in (if rx_active (rx conn) then rx_msg conn else conn))
                  = Some (SYM_NAK, y)" by simp
  from 5 have y: "tty_in xc = y" by simp
  show ?case using parse_tty_data_step[OF g] y by simp
next
  case (6 conn x x2 xa y xb xc xd)
  then have g: "buf_get_byte (tty_in (if rx_active (rx conn) then rx_msg conn else conn))
                  = Some (xa, y)" by simp
  from 6 have y: "tty_in xc = y" by simp
  show ?case using parse_tty_data_step[OF g] y by simp
next
  case (7 conn x x2 xa y xb)
  then have g: "buf_get_byte (tty_in (if rx_active (rx conn) then rx_msg conn else conn))
                  = Some (xa, y)" by simp
  from 7 have y: "tty_in xb = y" by simp
  show ?case using parse_tty_data_step[OF g] y by simp
qed

declare parse_tty_data.simps [simp del]

text \<open>\<open>buf_write\<close> and \<open>tty_write\<close>: the number of bytes that \<open>write()\<close> accepted
  is a parameter (negative for the error return).\<close>

definition buf_write :: "BUF \<Rightarrow> int \<Rightarrow> int \<times> BUF" where
  "buf_write src bytes =
     (if bytes < 0 then (-1, src)
      else (let s = src\<lparr>index := index src + nat bytes\<rparr>
            in (bytes, if index s = len s then buf_empty s else s)))"

definition tty_write :: "CONN \<Rightarrow> int \<Rightarrow> bool \<times> CONN" where
  "tty_write conn bytes =
     (case buf_write (tty_out conn) bytes of (n, out) \<Rightarrow>
        if n < 0 then (True, conn)
        else (let conn1 = conn\<lparr>tty_out := out\<rparr>
              in (False, if len (tty_out conn1) = 0 then tx_data_sent conn1 else conn1)))"

text \<open>\<open>conn_tick\<close> for one connection of the list.\<close>

definition conn_tick :: "CONN \<Rightarrow> CONN" where
  "conn_tick cur = tx_tick (rx_tick cur)"

text \<open>\<open>conn_init\<close> on its successful path: the structure comes zeroed from calloc,
  \<open>tty_open\<close> allocates the two TTY buffers, then \<open>tx_init\<close> and \<open>rx_init\<close> run.
  A buffer pointer not yet assigned is shown as a buffer of capacity 0.\<close>

definition zero_link_cnt :: link_diag_cnt where
  "zero_link_cnt = \<lparr>tx_attempts = 0, tx_success = 0, msg_rx = 0, acks_in = 0, naks_in = 0,
     resp_timeouts = 0, enqs_out = 0, tx_fail = 0, acks_out = 0, naks_out = 0, enqs_in = 0,
     runts = 0, bad_cs = 0, unknown_dst = 0, bytes_ignored = 0, dups = 0, rx_overflow = 0\<rparr>"

definition zero_client_cnt :: client_diag_cnt where
  "zero_client_cnt = \<lparr>c_tx_attempts = 0, c_tx_success = 0, c_tx_fail = 0, sink_full = 0,
     c_msg_rx = 0, msg_reject = 0, msg_accept = 0, rx_timeouts = 0\<rparr>"

definition conn_calloc :: "(nat \<Rightarrow> u8) \<Rightarrow> CONN" where
  "conn_calloc mem =
     \<lparr>use_crc = False, read_sym = False, embed_rsp = False,
      tty_in = buf_new mem 0, tty_out = buf_new mem 0,
      tx = \<lparr>tx_state = TX_IDLE, max_nak = 0, max_enq = 0, nak_cnt = 0, enq_cnt = 0,
            tx_eticks = 0, tx_tticks = 0, msg = buf_new mem 0, tx_client = None\<rparr>,
      rx = \<lparr>rx_state = RX_IDLE, app = buf_new mem 0, dup = [0, 0, 0, 0], rx_eticks = 0,
            rx_tticks = 0, last_was_ack = False, overflow = False, dup_detect = False,
            prev_dle = False, rx_client = None, msg_cs_crc = 0, msg_cs_bcc = 0,
            acc_cs_crc = 0, acc_cs_bcc = 0\<rparr>,
      clients = [], dcnts = zero_link_cnt\<rparr>"

definition conn_init :: "(nat \<Rightarrow> u8) \<Rightarrow> bool \<Rightarrow> u32 \<Rightarrow> u32 \<Rightarrow> bool \<Rightarrow> u32 \<Rightarrow> CONN" where
  "conn_init mem use_crc_arg tx_max_nak tx_max_enq rx_dup_detect ack_timeout =
     (let new = (conn_calloc mem)\<lparr>use_crc := use_crc_arg\<rparr>;
          new1 = new\<lparr>tty_in := buf_new mem TTY_BUF_SIZE, tty_out := buf_new mem TTY_BUF_SIZE\<rparr>;
          new2 = tx_init mem new1 tx_max_nak tx_max_enq ack_timeout
      in rx_init mem new2 rx_dup_detect)"

text \<open>A client as \<open>client_accept\<close> allocates it and \<open>reg_client\<close> registers it at an
  address: three empty buffers of \<open>CLIENT_BUF_SIZE\<close> bytes, state \<open>CLIENT_IDLE\<close>.\<close>

definition client_registered :: "(nat \<Rightarrow> u8) \<Rightarrow> u8 \<Rightarrow> CLIENT" where
  "client_registered mem a =
     \<lparr>cstate = CLIENT_IDLE, addr = a, new_msg_len = 0,
      df1_tx = buf_new mem CLIENT_BUF_SIZE, sock_out = buf_new mem CLIENT_BUF_SIZE,
      sock_in = buf_new mem CLIENT_BUF_SIZE, cdcnts = zero_client_cnt\<rparr>"

text \<open>A buffer holding the given bytes, nothing of it read yet.\<close>

definition buf_of :: "u8 list \<Rightarrow> nat \<Rightarrow> BUF" where
  "buf_of xs cap = \<lparr>data = (\<lambda>i. if i < length xs then xs ! i else 0), len = length xs,
                     index = 0, maxsz = cap\<rparr>"

section \<open>Properties of the buffer operations\<close>

lemma contents_append_byte:
  "len b \<noteq> maxsz b \<Longrightarrow> contents (snd (buf_append_byte b x)) = contents b @ [x]"
  by (simp add: buf_append_byte_def contents_def)


lemma maxsz_append_byte [simp]: "maxsz (snd (buf_append_byte b x)) = maxsz b"
  by (simp add: buf_append_byte_def)

lemma contents_append_buf:
  "len b + len s \<le> maxsz b \<Longrightarrow> contents (snd (buf_append_buf b s)) = contents b @ contents s"
proof -
  assume r: "len b + len s \<le> maxsz b"
  have "map (\<lambda>i. if len b \<le> i \<and> i < len b + len s then data s (i - len b) else data b i)
          [0..<len b + len s] = map (data b) [0..<len b] @ map (data s) [0..<len s]"
    by (rule nth_equalityI) (auto simp: nth_append)
  with r show ?thesis by (simp add: buf_append_buf_def contents_def Let_def)
qed

lemma contents_append_word:
  "len b + 2 \<le> maxsz b \<Longrightarrow>
   contents (snd (buf_append_word b w)) = contents b @ [lo_byte w, hi_byte w]"
  by (simp add: buf_append_word_def contents_def Let_def)

lemma fst_append_buf: "fst (buf_append_buf dst src) = (maxsz dst < len dst + len src)"
  by (simp add: buf_append_buf_def Let_def)

section \<open>The frame format and its reception\<close>

text \<open>The wire format in the words of the spec (section 4.2): every DLE byte of the
  payload is doubled; the CRC is the reflected CRC-16 with polynomial 0xA001 and
  initial value 0 (each byte exclusive-or-ed into the low byte, then eight right
  shifts, each followed by the polynomial when the bit shifted out was set) over
  the payload followed by ETX, sent low byte first; the BCC is the two's
  complement of the sum of the payload bytes.\<close>

fun spec_stuff :: "u8 list \<Rightarrow> u8 list" where
  "spec_stuff [] = []"
| "spec_stuff (x # xs) = (if x = 0x10 then [0x10, 0x10] else [x]) @ spec_stuff xs"

definition spec_crc_bit :: "nat \<Rightarrow> nat" where
  "spec_crc_bit c = (if odd c then (c div 2) XOR 0xA001 else c div 2)"

definition spec_crc_byte :: "nat \<Rightarrow> nat \<Rightarrow> nat" where
  "spec_crc_byte c b = (spec_crc_bit ^^ 8) (c XOR b)"

definition spec_crc16 :: "u8 list \<Rightarrow> nat" where
  "spec_crc16 bs = foldl spec_crc_byte 0 (map unat bs)"

definition spec_bcc :: "u8 list \<Rightarrow> int" where
  "spec_bcc bs = (- (\<Sum>b\<leftarrow>bs. uint b)) mod 256"

definition spec_checksum :: "bool \<Rightarrow> u8 list \<Rightarrow> u8 list" where
  "spec_checksum crc_mode bs =
     (if crc_mode
      then [of_nat (spec_crc16 (bs @ [0x03]) mod 256), of_nat (spec_crc16 (bs @ [0x03]) div 256)]
      else [of_int (spec_bcc bs)])"

definition spec_frame :: "bool \<Rightarrow> u8 list \<Rightarrow> u8 list" where
  "spec_frame crc_mode bs =
     [0x10, 0x02] @ spec_stuff bs @ [0x10, 0x03] @ spec_checksum crc_mode bs"

text \<open>The checksums as the code accumulates them.\<close>

definition crc_of :: "u8 list \<Rightarrow> u16" where
  "crc_of bs = foldl CRC_ADD 0 bs"

definition sum_of :: "u8 list \<Rightarrow> u8" where
  "sum_of bs = foldl (+) 0 bs"

lemma crc_shift_spec: "unat (crc_shift w) = spec_crc_bit (unat w)"
proof -
  have "odd w = odd (unat w)"
    by (metis even_of_nat mult.right_neutral unsigned_1 word_arith_nat_mult)
  then have o: "(w AND 1 \<noteq> 0) = odd (unat w)"
    by (simp add: and_one_eq mod_2_eq_odd)
  have d: "unat (drop_bit 1 w) = unat w div 2"
    by (simp add: drop_bit_eq_div unat_div)
  have x: "unat (drop_bit 1 w XOR 0xa001) = (unat w div 2) XOR 0xA001"
    by (simp add: unsigned_xor_eq drop_bit_eq_div unat_div)
  show ?thesis
    using o d x by (simp add: crc_shift_def spec_crc_bit_def)
qed


lemma CRC_ADD_spec: "unat (CRC_ADD crc v) = spec_crc_byte (unat crc) (unat v)"
proof -
  have i: "unat ((crc_shift ^^ n) w) = (spec_crc_bit ^^ n) (unat w)" for n w
    by (induction n) (simp_all add: crc_shift_spec)
  have "unat v < 2 ^ 16" using unsigned_less[of v, where ?'a = nat] by simp
  then have "unat (crc XOR ucast v) = unat crc XOR unat v"
    by (simp add: unsigned_xor_eq unsigned_ucast_eq take_bit_nat_eq_self)
  then show ?thesis by (simp add: CRC_ADD_def spec_crc_byte_def i)
qed

lemma crc_of_spec: "unat (crc_of bs) = spec_crc16 bs"
proof -
  have "unat (foldl CRC_ADD w bs) = foldl spec_crc_byte (unat w) (map unat bs)" for w
    by (induction bs arbitrary: w) (simp_all add: CRC_ADD_spec)
  from this[of 0] show ?thesis by (simp add: crc_of_def spec_crc16_def)
qed

lemma crc_bytes_spec:
  "[lo_byte w, hi_byte w] = [of_nat (unat w mod 256), of_nat (unat w div 256)]"
proof -
  have "lo_byte w = of_nat (unat w mod 256)"
    unfolding lo_byte_def by (rule bit_word_eqI) (auto simp: bit_simps simp flip: take_bit_eq_mod[of 8, simplified])
  moreover have "hi_byte w = of_nat (unat w div 256)"
    unfolding hi_byte_def by (rule bit_word_eqI) (auto simp: bit_simps simp flip: drop_bit_eq_div[of 8, simplified])
  ultimately show ?thesis by simp
qed

lemma sum_of_spec: "uint (NOT (sum_of bs) + 1) = spec_bcc bs"
proof -
  have f: "foldl (+) w bs = w + sum_list bs" for w :: u8
    by (induction bs arbitrary: w) (simp_all add: add.assoc)
  have u: "uint (sum_list bs) = (\<Sum>b\<leftarrow>bs. uint b) mod 256"
    by (induction bs) (simp_all add: uint_word_ariths mod_add_right_eq)
  have "NOT (sum_of bs) + 1 = - sum_of bs" by (simp add: minus_eq_not_plus_1)
  then have "uint (NOT (sum_of bs) + 1) = (- uint (sum_of bs)) mod 256"
    by (simp add: uint_word_ariths)
  also have "\<dots> = spec_bcc bs"
    by (simp add: sum_of_def f u spec_bcc_def mod_minus_eq)
  finally show ?thesis .
qed

subsection \<open>The transmitter's framer\<close>

text \<open>Appending bytes one at a time, as \<open>tx_msg\<close> does: once the buffer is full the
  remaining bytes are dropped.\<close>

definition append_bytes :: "BUF \<Rightarrow> u8 list \<Rightarrow> BUF" where
  "append_bytes m xs = foldl (\<lambda>b x. snd (buf_append_byte b x)) m xs"

lemma len_append_byte_if:
  "len (snd (buf_append_byte m x)) = (if len m = maxsz m then len m else Suc (len m))"
  by (simp add: buf_append_byte_def)

lemma fst_append_byte: "fst (buf_append_byte m x) = (len m = maxsz m)"
  by (simp add: buf_append_byte_def)

lemma index_append_byte [simp]: "index (snd (buf_append_byte m x)) = index m"
  by (simp add: buf_append_byte_def)

lemma append_bytes_Nil [simp]: "append_bytes m [] = m"
  by (simp add: append_bytes_def)

lemma append_bytes_Cons [simp]:
  "append_bytes m (x # xs) = append_bytes (snd (buf_append_byte m x)) xs"
  by (simp add: append_bytes_def)

lemma append_bytes_append: "append_bytes m (xs @ ys) = append_bytes (append_bytes m xs) ys"
  by (simp add: append_bytes_def)

lemma maxsz_append_bytes [simp]: "maxsz (append_bytes m xs) = maxsz m"
  by (induction xs arbitrary: m) simp_all

lemma index_append_bytes [simp]: "index (append_bytes m xs) = index m"
  by (induction xs arbitrary: m) simp_all

lemma len_append_bytes:
  "len m \<le> maxsz m \<Longrightarrow> len (append_bytes m xs) = min (maxsz m) (len m + length xs)"
proof (induction xs arbitrary: m)
  case Nil
  then show ?case by simp
next
  case (Cons x xs)
  have "len (snd (buf_append_byte m x)) \<le> maxsz (snd (buf_append_byte m x))"
    using Cons.prems by (simp add: len_append_byte_if)
  from Cons.IH[OF this] Cons.prems show ?case
    by (auto simp: len_append_byte_if)
qed

lemma contents_append_byte_full:
  "len m = maxsz m \<Longrightarrow> contents (snd (buf_append_byte m x)) = contents m"
  by (simp add: buf_append_byte_def)

lemma length_contents [simp]: "length (contents b) = len b"
  by (simp add: contents_def)

lemma contents_append_bytes:
  "len m \<le> maxsz m \<Longrightarrow> contents (append_bytes m xs) = take (maxsz m) (contents m @ xs)"
proof (induction xs arbitrary: m)
  case Nil
  then show ?case by (simp add: contents_def)
next
  case (Cons x xs)
  let ?m = "snd (buf_append_byte m x)"
  have l: "len ?m \<le> maxsz ?m" using Cons.prems by (simp add: len_append_byte_if)
  show ?case
  proof (cases "len m = maxsz m")
    case True
    then have "contents ?m = contents m" by (rule contents_append_byte_full)
    with Cons.IH[OF l] True show ?thesis by simp
  next
    case False
    then have "contents ?m = contents m @ [x]" by (rule contents_append_byte)
    with Cons.IH[OF l] show ?thesis by simp
  qed
qed

lemma unread_empty: "len b \<le> index b \<Longrightarrow> unread b = []"
  by (simp add: unread_def)

lemma unread_step:
  "index b < len b \<Longrightarrow> unread b = data b (index b) # unread (b\<lparr>index := Suc (index b)\<rparr>)"
  by (simp add: unread_def upt_conv_Cons)

lemma unread_Cons:
  assumes "unread b = x # xs"
  shows "buf_get_byte b = Some (x, b\<lparr>index := Suc (index b)\<rparr>)"
    and "unread (b\<lparr>index := Suc (index b)\<rparr>) = xs"
proof -
  from assms have i: "index b < len b" by (cases "index b < len b") (simp_all add: unread_def)
  from unread_step[OF i] assms have "data b (index b) = x" "unread (b\<lparr>index := Suc (index b)\<rparr>) = xs"
    by simp_all
  with i show "buf_get_byte b = Some (x, b\<lparr>index := Suc (index b)\<rparr>)"
    and "unread (b\<lparr>index := Suc (index b)\<rparr>) = xs"
    by (simp_all add: buf_get_byte_def)
qed

text \<open>The loop of \<open>tx_msg\<close> appends the stuffed payload, reads the client's buffer to
  its end, and accumulates the checksum of its mode.\<close>

lemma tx_msg_loop_spec:
  assumes "len m \<le> maxsz m"
  shows "tx_msg_loop crc_mode df1 m ovf crc bcc =
     (df1\<lparr>index := max (index df1) (len df1)\<rparr>,
      append_bytes m (spec_stuff (unread df1)),
      ovf \<or> maxsz m < len m + length (spec_stuff (unread df1)),
      (if crc_mode then foldl CRC_ADD crc (unread df1) else crc),
      (if crc_mode then bcc else foldl (+) bcc (unread df1)))"
  using assms
proof (induction "len df1 - index df1" arbitrary: df1 m ovf crc bcc)
  case 0
  then have e: "len df1 \<le> index df1" by simp
  then have "df1\<lparr>index := max (index df1) (len df1)\<rparr> = df1" by (simp add: max_def)
  with e 0 show ?case
    by (subst tx_msg_loop.simps) (simp add: buf_get_byte_def unread_empty)
next
  case (Suc k)
  then have i: "index df1 < len df1" by simp
  let ?d = "df1\<lparr>index := Suc (index df1)\<rparr>"
  let ?x = "data df1 (index df1)"
  have g: "buf_get_byte df1 = Some (?x, ?d)" using i by (simp add: buf_get_byte_def)
  have u: "unread df1 = ?x # unread ?d" by (rule unread_step[OF i])
  have k: "k = len ?d - index ?d" using Suc(2) by simp
  have mx: "max (index ?d) (len ?d) = max (index df1) (len df1)" using i by simp
  let ?m1 = "snd (buf_append_byte m ?x)"
  have l1: "len ?m1 \<le> maxsz ?m1" using Suc.prems by (simp add: len_append_byte_if)
  let ?m2 = "snd (buf_append_byte ?m1 SYM_DLE)"
  have l2: "len ?m2 \<le> maxsz ?m2" using l1 by (simp add: len_append_byte_if)
  show ?case
  proof (cases "?x = SYM_DLE")
    case True
    have "tx_msg_loop crc_mode df1 m ovf crc bcc =
        tx_msg_loop crc_mode ?d ?m2
          (ovf \<or> fst (buf_append_byte m ?x) \<or> fst (buf_append_byte ?m1 SYM_DLE))
          (if crc_mode then CRC_ADD crc ?x else crc) (if crc_mode then bcc else bcc + ?x)"
      using g True by (subst tx_msg_loop.simps) (simp add: Let_def split: prod.splits)
    also note Suc(1)[OF k l2]
    finally show ?thesis
      using True u mx Suc.prems l1
      by (auto simp: SYM_DLE_def fst_append_byte len_append_byte_if)
  next
    case False
    have "tx_msg_loop crc_mode df1 m ovf crc bcc =
        tx_msg_loop crc_mode ?d ?m1 (ovf \<or> fst (buf_append_byte m ?x))
          (if crc_mode then CRC_ADD crc ?x else crc) (if crc_mode then bcc else bcc + ?x)"
      using g False by (subst tx_msg_loop.simps) (simp add: Let_def split: prod.splits)
    also note Suc(1)[OF k l1]
    finally show ?thesis
      using False u mx Suc.prems
      by (auto simp: SYM_DLE_def fst_append_byte len_append_byte_if)
  qed
qed

text \<open>The checksum bytes as \<open>tx_msg\<close> computes them, and the frame they close.\<close>

definition code_checksum :: "bool \<Rightarrow> u8 list \<Rightarrow> u8 list" where
  "code_checksum crc_mode bs =
     (if crc_mode then [lo_byte (crc_of (bs @ [SYM_ETX])), hi_byte (crc_of (bs @ [SYM_ETX]))]
      else [NOT (sum_of bs) + 1])"

lemma code_checksum_spec: "code_checksum crc_mode bs = spec_checksum crc_mode bs"
proof (cases crc_mode)
  case True
  then show ?thesis
    using crc_bytes_spec[of "crc_of (bs @ [SYM_ETX])"]
    by (simp add: code_checksum_def spec_checksum_def crc_of_spec SYM_ETX_def)
next
  case False
  have "of_int (uint (NOT (sum_of bs) + 1)) = (NOT (sum_of bs) + 1 :: u8)" by simp
  then have "(of_int (spec_bcc bs) :: u8) = NOT (sum_of bs) + 1"
    by (simp only: sum_of_spec)
  with False show ?thesis by (simp add: code_checksum_def spec_checksum_def)
qed

lemma length_spec_frame:
  "length (spec_frame crc_mode bs) = length (spec_stuff bs) + (if crc_mode then 6 else 5)"
  by (simp add: spec_frame_def spec_checksum_def)

lemma tx_msg_frame_spec:
  assumes "len m \<le> maxsz m"
  shows "tx_msg_frame crc_mode df1 m =
     (df1\<lparr>index := max (index df1) (len df1)\<rparr>,
      (let m5 = append_bytes m ([SYM_DLE, SYM_STX] @ spec_stuff (unread df1) @ [SYM_DLE, SYM_ETX])
       in if crc_mode then snd (buf_append_word m5 (crc_of (unread df1 @ [SYM_ETX])))
          else snd (buf_append_byte m5 (NOT (sum_of (unread df1)) + 1))),
      maxsz m < len m + length (spec_frame crc_mode (unread df1)))"
proof -
  let ?B = "unread df1"
  let ?m2 = "snd (buf_append_byte (snd (buf_append_byte m SYM_DLE)) SYM_STX)"
  have m2: "?m2 = append_bytes m [SYM_DLE, SYM_STX]" by simp
  have l2: "len ?m2 \<le> maxsz ?m2"
    using assms by (simp add: len_append_byte_if)
  let ?m3 = "append_bytes ?m2 (spec_stuff ?B)"
  have m3: "?m3 = append_bytes m ([SYM_DLE, SYM_STX] @ spec_stuff ?B)"
    by (simp only: m2 append_bytes_append)
  have l3: "len ?m3 = min (maxsz m) (len m + 2 + length (spec_stuff ?B))"
    unfolding m3 using len_append_bytes[OF assms, of "[SYM_DLE, SYM_STX] @ spec_stuff ?B"]
    by simp
  let ?m5 = "snd (buf_append_byte (snd (buf_append_byte ?m3 SYM_DLE)) SYM_ETX)"
  have m5: "?m5 = append_bytes m ([SYM_DLE, SYM_STX] @ spec_stuff ?B @ [SYM_DLE, SYM_ETX])"
    unfolding m3 by (simp add: append_bytes_append)
  have l5: "len ?m5 = min (maxsz m) (len m + 4 + length (spec_stuff ?B))"
    unfolding m5
    using len_append_bytes[OF assms, of "[SYM_DLE, SYM_STX] @ spec_stuff ?B @ [SYM_DLE, SYM_ETX]"]
    by simp
  have loop: "tx_msg_loop cm df1 ?m2 ov 0 0 =
     (df1\<lparr>index := max (index df1) (len df1)\<rparr>, ?m3,
      ov \<or> maxsz ?m2 < len ?m2 + length (spec_stuff ?B),
      (if cm then foldl CRC_ADD 0 ?B else 0),
      (if cm then 0 else foldl (+) 0 ?B))" for cm ov
    by (rule tx_msg_loop_spec[OF l2])
  have crc: "CRC_ADD (foldl CRC_ADD 0 ?B) SYM_ETX = crc_of (?B @ [SYM_ETX])"
    by (simp add: crc_of_def)
  have A: "fst (tx_msg_frame crc_mode df1 m) = df1\<lparr>index := max (index df1) (len df1)\<rparr>"
    by (simp add: tx_msg_frame_def loop split_beta Let_def)
  have B: "fst (snd (tx_msg_frame crc_mode df1 m)) =
      (if crc_mode then snd (buf_append_word ?m5 (crc_of (?B @ [SYM_ETX])))
       else snd (buf_append_byte ?m5 (NOT (sum_of ?B) + 1)))"
    by (simp add: tx_msg_frame_def loop split_beta Let_def crc htols_def sum_of_def)
  have C: "snd (snd (tx_msg_frame crc_mode df1 m))
      = (maxsz m < len m + length (spec_frame crc_mode ?B))"
    using assms l3
    by (auto simp add: tx_msg_frame_def loop split_beta Let_def fst_append_byte
        len_append_byte_if buf_append_word_def length_spec_frame)
  show ?thesis
    using A B C by (simp add: prod_eq_iff Let_def append_bytes_append)
qed

subsection \<open>The receiver on a stuffed payload\<close>

text \<open>The connection after the receiver has taken \<open>n\<close> bytes from the TTY input
  that carry the payload bytes \<open>bs\<close>: the payload is appended to the application
  buffer and added to the checksum of the connection's mode.\<close>

definition rx_taken :: "nat \<Rightarrow> u8 list \<Rightarrow> CONN \<Rightarrow> CONN" where
  "rx_taken n bs c =
     c\<lparr>tty_in := (tty_in c)\<lparr>index := index (tty_in c) + n\<rparr>,
       rx := (rx c)\<lparr>app := append_bytes (app (rx c)) bs,
                      acc_cs_crc := (if use_crc c then foldl CRC_ADD (acc_cs_crc (rx c)) bs
                                     else acc_cs_crc (rx c)),
                      acc_cs_bcc := (if use_crc c then acc_cs_bcc (rx c)
                                     else foldl (+) (acc_cs_bcc (rx c)) bs)\<rparr>\<rparr>"

lemma rx_taken_Nil [simp]: "rx_taken 0 [] c = c"
  by (simp add: rx_taken_def)

lemma rx_taken_fields [simp]:
  "rx_state (rx (rx_taken n bs c)) = rx_state (rx c)"
  "prev_dle (rx (rx_taken n bs c)) = prev_dle (rx c)"
  "overflow (rx (rx_taken n bs c)) = overflow (rx c)"
  "use_crc (rx_taken n bs c) = use_crc c"
  "read_sym (rx_taken n bs c) = read_sym c"
  "app (rx (rx_taken n bs c)) = append_bytes (app (rx c)) bs"
  "tty_in (rx_taken n bs c) = (tty_in c)\<lparr>index := index (tty_in c) + n\<rparr>"
  by (simp_all add: rx_taken_def)

lemma rx_taken_rx_taken:
  "rx_taken n2 bs2 (rx_taken n1 bs1 c) = rx_taken (n1 + n2) (bs1 @ bs2) c"
  by (simp add: rx_taken_def append_bytes_append add.assoc)

lemma unread_index:
  "unread b = xs @ ys \<Longrightarrow> unread (b\<lparr>index := index b + length xs\<rparr>) = ys"
proof (induction xs arbitrary: b)
  case Nil
  then show ?case by simp
next
  case (Cons x xs)
  from Cons.prems have "unread (b\<lparr>index := Suc (index b)\<rparr>) = xs @ ys"
    using unread_Cons(2)[of b x "xs @ ys"] by simp
  from Cons.IH[OF this] show ?case by simp
qed

lemma add_to_app_plain:
  assumes "\<not> prev_dle (rx c)" and "byte \<noteq> SYM_DLE" and "\<not> overflow (rx c)"
    and "len (app (rx c)) < maxsz (app (rx c))"
  shows "add_to_app c byte =
     c\<lparr>rx := (rx c)\<lparr>app := snd (buf_append_byte (app (rx c)) byte),
                    acc_cs_crc := (if use_crc c then CRC_ADD (acc_cs_crc (rx c)) byte
                                   else acc_cs_crc (rx c)),
                    acc_cs_bcc := (if use_crc c then acc_cs_bcc (rx c)
                                   else acc_cs_bcc (rx c) + byte)\<rparr>\<rparr>"
proof -
  have a: "fst (buf_append_byte (app (rx c)) b) = False" for b
    using assms(4) by (simp add: fst_append_byte)
  have p: "(rx c)\<lparr>prev_dle := False\<rparr> = rx c" using assms(1) by simp
  show ?thesis
    using assms(1,2,3)
    by (cases "use_crc c")
       (simp_all add: add_to_app_def Let_def p a cs_add_def prod.case_eq_if bool.case_eq_if)
qed

lemma sym_distinct [simp]:
  "SYM_DLE \<noteq> SYM_ETX" "SYM_DLE \<noteq> SYM_ACK" "SYM_DLE \<noteq> SYM_NAK" "SYM_DLE \<noteq> SYM_STX"
  "SYM_DLE \<noteq> SYM_ENQ" "SYM_ETX \<noteq> SYM_DLE" "SYM_ETX \<noteq> SYM_STX" "SYM_ETX \<noteq> SYM_ENQ"
  "SYM_ETX \<noteq> SYM_ACK" "SYM_ETX \<noteq> SYM_NAK" "SYM_STX \<noteq> SYM_DLE"
  by (simp_all add: sym_defs)

lemma add_to_app_first_dle:
  "\<not> prev_dle (rx c) \<Longrightarrow> add_to_app c SYM_DLE = c\<lparr>rx := (rx c)\<lparr>prev_dle := True\<rparr>\<rparr>"
  by (simp add: add_to_app_def Let_def)

lemma add_to_app_second_dle:
  assumes "prev_dle (rx c)" and "\<not> overflow (rx c)"
    and "len (app (rx c)) < maxsz (app (rx c))"
  shows "add_to_app c SYM_DLE =
     c\<lparr>rx := (rx c)\<lparr>prev_dle := False,
                    app := snd (buf_append_byte (app (rx c)) SYM_DLE),
                    acc_cs_crc := (if use_crc c then CRC_ADD (acc_cs_crc (rx c)) SYM_DLE
                                   else acc_cs_crc (rx c)),
                    acc_cs_bcc := (if use_crc c then acc_cs_bcc (rx c)
                                   else acc_cs_bcc (rx c) + SYM_DLE)\<rparr>\<rparr>"
proof -
  have a: "fst (buf_append_byte (app (rx c)) SYM_DLE) = False"
    using assms(3) by (simp add: fst_append_byte)
  show ?thesis
    using assms(1,2)
    by (cases "use_crc c")
       (simp_all add: add_to_app_def Let_def a cs_add_def prod.case_eq_if bool.case_eq_if)
qed

lemma rx_msg_loop_app:
  assumes "unread (tty_in c) = x # xs" and "rx_state (rx c) = RX_APP"
  shows "rx_msg_loop c
       = rx_msg_loop (add_to_app (c\<lparr>tty_in := (tty_in c)\<lparr>index := Suc (index (tty_in c))\<rparr>\<rparr>) x)"
  using unread_Cons(1)[OF assms(1)] assms(2)
  by (subst rx_msg_loop.simps) (simp add: Let_def)

lemma rx_msg_loop_byte:
  assumes u: "unread (tty_in c) = spec_stuff [x] @ rest"
    and s: "rx_state (rx c) = RX_APP" and p: "\<not> prev_dle (rx c)" and o: "\<not> overflow (rx c)"
    and r: "len (app (rx c)) < maxsz (app (rx c))"
  shows "rx_msg_loop c = rx_msg_loop (rx_taken (length (spec_stuff [x])) [x] c)"
proof (cases "x = SYM_DLE")
  case False
  let ?c1 = "c\<lparr>tty_in := (tty_in c)\<lparr>index := Suc (index (tty_in c))\<rparr>\<rparr>"
  from False u have u1: "unread (tty_in c) = x # rest" by (simp add: SYM_DLE_def)
  have "rx_msg_loop c = rx_msg_loop (add_to_app ?c1 x)" by (rule rx_msg_loop_app[OF u1 s])
  also have "add_to_app ?c1 x = rx_taken (length (spec_stuff [x])) [x] c"
    using False p o r
    by (subst add_to_app_plain) (simp_all add: rx_taken_def SYM_DLE_def)
  finally show ?thesis .
next
  case True
  let ?c1 = "c\<lparr>tty_in := (tty_in c)\<lparr>index := Suc (index (tty_in c))\<rparr>\<rparr>"
  let ?c2 = "?c1\<lparr>rx := (rx c)\<lparr>prev_dle := True\<rparr>\<rparr>"
  let ?c3 = "?c2\<lparr>tty_in := (tty_in ?c2)\<lparr>index := Suc (index (tty_in ?c2))\<rparr>\<rparr>"
  from True u have u1: "unread (tty_in c) = SYM_DLE # SYM_DLE # rest" by (simp add: SYM_DLE_def)
  have u2: "unread (tty_in ?c2) = SYM_DLE # rest"
    using unread_Cons(2)[OF u1] by simp
  have "rx_msg_loop c = rx_msg_loop (add_to_app ?c1 SYM_DLE)" by (rule rx_msg_loop_app[OF u1 s])
  also have "add_to_app ?c1 SYM_DLE = ?c2" using p by (simp add: add_to_app_first_dle)
  also have "rx_msg_loop ?c2 = rx_msg_loop (add_to_app ?c3 SYM_DLE)"
    using s by (intro rx_msg_loop_app[OF u2]) simp
  also have "add_to_app ?c3 SYM_DLE = rx_taken (length (spec_stuff [x])) [x] c"
    using True p o r
    by (subst add_to_app_second_dle) (simp_all add: rx_taken_def SYM_DLE_def)
  finally show ?thesis .
qed

lemma rx_msg_loop_payload:
  assumes "unread (tty_in c) = spec_stuff bs @ rest"
    and "rx_state (rx c) = RX_APP" and "\<not> prev_dle (rx c)" and "\<not> overflow (rx c)"
    and "len (app (rx c)) + length bs \<le> maxsz (app (rx c))"
  shows "rx_msg_loop c = rx_msg_loop (rx_taken (length (spec_stuff bs)) bs c)"
  using assms
proof (induction bs arbitrary: c)
  case Nil
  then show ?case by simp
next
  case (Cons x bs)
  let ?n = "length (spec_stuff [x])"
  let ?c = "rx_taken ?n [x] c"
  from Cons.prems(1) have u: "unread (tty_in c) = spec_stuff [x] @ (spec_stuff bs @ rest)"
    by simp
  from Cons.prems(5) have r: "len (app (rx c)) < maxsz (app (rx c))" by simp
  have 1: "rx_msg_loop c = rx_msg_loop ?c"
    by (rule rx_msg_loop_byte[OF u Cons.prems(2,3,4) r])
  have u': "unread (tty_in ?c) = spec_stuff bs @ rest"
    using unread_index[OF u] by simp
  have l: "len (app (rx ?c)) + length bs \<le> maxsz (app (rx ?c))"
    using Cons.prems(5) r by (simp add: len_append_byte_if)
  have 2: "rx_msg_loop ?c = rx_msg_loop (rx_taken (length (spec_stuff bs)) bs ?c)"
    using Cons.prems(2,3,4) by (intro Cons.IH[OF u' _ _ _ l]) simp_all
  have "rx_taken (length (spec_stuff bs)) bs ?c = rx_taken (length (spec_stuff (x # bs))) (x # bs) c"
    by (simp add: rx_taken_rx_taken)
  with 1 2 show ?case by simp
qed

subsection \<open>The receiver on a whole frame\<close>

text \<open>The connection that \<open>rx_msg\<close> hands to \<open>accept_msg\<close> once a frame with payload
  \<open>bs\<close> and checksum bytes \<open>cs\<close> has been read from the TTY input, the receiver
  having been idle before the frame.\<close>

definition rx_frame_done :: "u8 list \<Rightarrow> u8 list \<Rightarrow> CONN \<Rightarrow> CONN" where
  "rx_frame_done bs cs c =
     c\<lparr>tty_in := (tty_in c)\<lparr>index := index (tty_in c) + (length (spec_stuff bs) + 4 + length cs)\<rparr>,
       read_sym := False,
       rx := (rx c)\<lparr>app := append_bytes (buf_empty (app (rx c))) bs,
                      rx_eticks := 0,
                      prev_dle := True,
                      overflow := False,
                      acc_cs_crc := (if use_crc c then crc_of (bs @ [SYM_ETX]) else acc_cs_crc (rx c)),
                      acc_cs_bcc := (if use_crc c then acc_cs_bcc (rx c) else sum_of bs),
                      msg_cs_crc := (if use_crc c then ucast (cs ! 0) + push_bit 8 (ucast (cs ! 1))
                                     else msg_cs_crc (rx c)),
                      msg_cs_bcc := (if use_crc c then msg_cs_bcc (rx c) else cs ! 0),
                      rx_state := (if use_crc c then RX_CS2 else RX_CS1)\<rparr>\<rparr>"

lemma accept_msg_inactive: "\<not> rx_active (rx (accept_msg c))"
  by (simp add: accept_msg_def msg_dup_def client_msg_rx_def rx_nak_def rx_ack_def rx_active_def
      rx_set_nak_def Let_def split: prod.splits bool.splits option.splits)

lemma parse_tty_data_done:
  "\<not> rx_active (rx c) \<Longrightarrow> len (tty_in c) \<le> index (tty_in c) \<Longrightarrow> parse_tty_data c = c"
  by (subst parse_tty_data.simps) (simp add: buf_get_byte_def)

lemma rx_msg_loop_cs1_crc:
  assumes "unread (tty_in c) = x # xs" and "rx_state (rx c) = RX_CS1" and "use_crc c"
  shows "rx_msg_loop c
       = rx_msg_loop (c\<lparr>tty_in := (tty_in c)\<lparr>index := Suc (index (tty_in c))\<rparr>,
                        rx := (rx c)\<lparr>msg_cs_crc := ucast x, rx_state := RX_CS2\<rparr>\<rparr>)"
  using unread_Cons(1)[OF assms(1)] assms(2,3)
  by (subst rx_msg_loop.simps) (simp add: Let_def)

lemma rx_msg_loop_cs1_bcc:
  assumes "unread (tty_in c) = x # xs" and "rx_state (rx c) = RX_CS1" and "\<not> use_crc c"
  shows "rx_msg_loop c
       = accept_msg (c\<lparr>tty_in := (tty_in c)\<lparr>index := Suc (index (tty_in c))\<rparr>,
                       rx := (rx c)\<lparr>msg_cs_bcc := x\<rparr>\<rparr>)"
  using unread_Cons(1)[OF assms(1)] assms(2,3)
  by (subst rx_msg_loop.simps) (simp add: Let_def)

lemma rx_msg_loop_cs2:
  assumes "unread (tty_in c) = x # xs" and "rx_state (rx c) = RX_CS2"
  shows "rx_msg_loop c
       = accept_msg (c\<lparr>tty_in := (tty_in c)\<lparr>index := Suc (index (tty_in c))\<rparr>,
                       rx := (rx c)\<lparr>msg_cs_crc := msg_cs_crc (rx c) + push_bit 8 (ucast x)\<rparr>\<rparr>)"
  using unread_Cons(1)[OF assms(1)] assms(2)
  by (subst rx_msg_loop.simps) (simp add: Let_def)

lemma add_to_app_etx:
  "prev_dle (rx c) \<Longrightarrow>
   add_to_app c SYM_ETX =
     c\<lparr>rx := (rx c)\<lparr>acc_cs_crc := (if use_crc c then CRC_ADD (acc_cs_crc (rx c)) SYM_ETX
                                    else acc_cs_crc (rx c)),
                    rx_state := RX_CS1\<rparr>\<rparr>"
  by (cases "use_crc c") (simp_all add: add_to_app_def cs_add_def Let_def)

text \<open>The end of a frame, from the closing DLE ETX on.\<close>

definition rx_tail :: "u8 list \<Rightarrow> CONN \<Rightarrow> CONN" where
  "rx_tail cs c =
     c\<lparr>tty_in := (tty_in c)\<lparr>index := index (tty_in c) + (2 + length cs)\<rparr>,
       rx := (rx c)\<lparr>prev_dle := True,
                      acc_cs_crc := (if use_crc c then CRC_ADD (acc_cs_crc (rx c)) SYM_ETX
                                     else acc_cs_crc (rx c)),
                      msg_cs_crc := (if use_crc c then ucast (cs ! 0) + push_bit 8 (ucast (cs ! 1))
                                     else msg_cs_crc (rx c)),
                      msg_cs_bcc := (if use_crc c then msg_cs_bcc (rx c) else cs ! 0),
                      rx_state := (if use_crc c then RX_CS2 else RX_CS1)\<rparr>\<rparr>"

lemma rx_msg_loop_tail:
  assumes u: "unread (tty_in c) = [SYM_DLE, SYM_ETX] @ cs"
    and l: "length cs = (if use_crc c then 2 else 1)"
    and s: "rx_state (rx c) = RX_APP" and p: "\<not> prev_dle (rx c)"
  shows "rx_msg_loop c = accept_msg (rx_tail cs c)"
proof -
  let ?t1 = "(tty_in c)\<lparr>index := Suc (index (tty_in c))\<rparr>"
  let ?c1 = "c\<lparr>tty_in := ?t1, rx := (rx c)\<lparr>prev_dle := True\<rparr>\<rparr>"
  let ?t2 = "(tty_in c)\<lparr>index := Suc (Suc (index (tty_in c)))\<rparr>"
  let ?c2 = "c\<lparr>tty_in := ?t2,
               rx := (rx c)\<lparr>prev_dle := True,
                      acc_cs_crc := (if use_crc c then CRC_ADD (acc_cs_crc (rx c)) SYM_ETX
                                     else acc_cs_crc (rx c)),
                      rx_state := RX_CS1\<rparr>\<rparr>"
  from u have u0: "unread (tty_in c) = SYM_DLE # SYM_ETX # cs" by simp
  have u1: "unread (tty_in ?c1) = SYM_ETX # cs" using unread_Cons(2)[OF u0] by simp
  have u2: "unread (tty_in ?c2) = cs" using unread_Cons(2)[of ?t1 SYM_ETX cs] u1 by simp
  have "rx_msg_loop c = rx_msg_loop (add_to_app (c\<lparr>tty_in := ?t1\<rparr>) SYM_DLE)"
    by (rule rx_msg_loop_app[OF u0 s])
  also have "add_to_app (c\<lparr>tty_in := ?t1\<rparr>) SYM_DLE = ?c1"
    using p by (simp add: add_to_app_first_dle)
  also have "rx_msg_loop ?c1 = rx_msg_loop (add_to_app (?c1\<lparr>tty_in := ?t2\<rparr>) SYM_ETX)"
    using rx_msg_loop_app[OF u1] s by simp
  also have "add_to_app (?c1\<lparr>tty_in := ?t2\<rparr>) SYM_ETX = ?c2"
    by (simp add: add_to_app_etx)
  finally have e: "rx_msg_loop c = rx_msg_loop ?c2" .
  have n4: "n + 4 = Suc (Suc (Suc (Suc n)))" and n3: "n + 3 = Suc (Suc (Suc n))" for n :: nat
    by simp_all
  show ?thesis
  proof (cases "use_crc c")
    case True
    with l obtain lo hi where cs: "cs = [lo, hi]"
      by (cases cs; cases "tl cs"; auto)
    let ?c3 = "?c2\<lparr>tty_in := (tty_in ?c2)\<lparr>index := Suc (index (tty_in ?c2))\<rparr>,
                    rx := (rx ?c2)\<lparr>msg_cs_crc := ucast lo, rx_state := RX_CS2\<rparr>\<rparr>"
    let ?c4 = "?c3\<lparr>tty_in := (tty_in ?c3)\<lparr>index := Suc (index (tty_in ?c3))\<rparr>,
                    rx := (rx ?c3)\<lparr>msg_cs_crc := msg_cs_crc (rx ?c3) + push_bit 8 (ucast hi)\<rparr>\<rparr>"
    have u2': "unread (tty_in ?c2) = lo # [hi]" using u2 cs by simp
    have u3: "unread (tty_in ?c3) = hi # []" using unread_Cons(2)[OF u2'] by simp
    have "rx_msg_loop ?c2 = rx_msg_loop ?c3"
      using True by (intro rx_msg_loop_cs1_crc[OF u2']) simp_all
    also have "\<dots> = accept_msg ?c4"
      by (intro rx_msg_loop_cs2[OF u3]) simp
    also have "?c4 = rx_tail cs c"
      using True cs by (simp add: rx_tail_def n4)
    finally show ?thesis using e by simp
  next
    case False
    with l obtain b where cs: "cs = [b]" by (cases cs; auto)
    let ?c3 = "?c2\<lparr>tty_in := (tty_in ?c2)\<lparr>index := Suc (index (tty_in ?c2))\<rparr>,
                          rx := (rx ?c2)\<lparr>msg_cs_bcc := b\<rparr>\<rparr>"
    have u2': "unread (tty_in ?c2) = b # []" using u2 cs by simp
    have "rx_msg_loop ?c2 = accept_msg ?c3"
      using False by (intro rx_msg_loop_cs1_bcc[OF u2']) simp_all
    also have "?c3 = rx_tail cs c"
      using False cs by (simp add: rx_tail_def n3)
    finally show ?thesis using e by simp
  qed
qed

lemma length_unread: "length (unread b) = len b - index b"
  by (simp add: unread_def)

lemma parse_tty_data_frame:
  assumes i: "rx_state (rx c) = RX_IDLE" and rs: "\<not> read_sym c"
    and u: "unread (tty_in c) = [SYM_DLE, SYM_STX] @ spec_stuff bs @ [SYM_DLE, SYM_ETX] @ cs"
    and l: "length cs = (if use_crc c then 2 else 1)"
    and room: "length bs \<le> maxsz (app (rx c))"
  shows "parse_tty_data c = accept_msg (rx_frame_done bs cs c)"
proof -
  let ?rest = "spec_stuff bs @ [SYM_DLE, SYM_ETX] @ cs"
  let ?t1 = "(tty_in c)\<lparr>index := Suc (index (tty_in c))\<rparr>"
  let ?t2 = "(tty_in c)\<lparr>index := Suc (Suc (index (tty_in c)))\<rparr>"
  let ?c1 = "c\<lparr>tty_in := ?t1, read_sym := True\<rparr>"
  let ?c2 = "c\<lparr>tty_in := ?t2, read_sym := False\<rparr>"
  let ?cI = "?c2\<lparr>rx := (rx c)\<lparr>app := buf_empty (app (rx c)), rx_eticks := 0, prev_dle := False,
                              overflow := False,
                              acc_cs_crc := (if use_crc c then 0 else acc_cs_crc (rx c)),
                              acc_cs_bcc := (if use_crc c then acc_cs_bcc (rx c) else 0),
                              rx_state := RX_APP\<rparr>\<rparr>"
  let ?n = "length (spec_stuff bs)"
  from u have u0: "unread (tty_in c) = SYM_DLE # SYM_STX # ?rest" by simp
  have g0: "buf_get_byte (tty_in c) = Some (SYM_DLE, ?t1)" by (rule unread_Cons(1)[OF u0])
  have u1: "unread ?t1 = SYM_STX # ?rest" using unread_Cons(2)[OF u0] .
  have g1: "buf_get_byte ?t1 = Some (SYM_STX, ?t2)" using unread_Cons(1)[OF u1] by simp
  have u2: "unread ?t2 = ?rest" using unread_Cons(2)[OF u1] by simp
  have na: "\<not> rx_active (rx c)" using i by (simp add: rx_active_def)
  have s1: "parse_tty_data c = parse_tty_data ?c1"
    using na g0 rs by (subst parse_tty_data.simps) (simp add: Let_def link_byte_def)
  have s2: "parse_tty_data ?c1 = parse_tty_data (rx_msg ?c2)"
    using na g1 by (subst parse_tty_data.simps) (simp add: Let_def)
  have s3: "rx_msg ?c2 = rx_msg_loop ?cI"
    using i by (cases "use_crc c") (simp_all add: rx_msg_def Let_def cs_clear_def)
  have uI: "unread (tty_in ?cI) = spec_stuff bs @ ([SYM_DLE, SYM_ETX] @ cs)" using u2 by simp
  have s4: "rx_msg_loop ?cI = rx_msg_loop (rx_taken ?n bs ?cI)"
    using room by (intro rx_msg_loop_payload[OF uI]) (simp_all add: buf_empty_def)
  have uT: "unread (tty_in (rx_taken ?n bs ?cI)) = [SYM_DLE, SYM_ETX] @ cs"
    using unread_index[OF uI] by simp
  have s5: "rx_msg_loop (rx_taken ?n bs ?cI) = accept_msg (rx_tail cs (rx_taken ?n bs ?cI))"
    using l by (intro rx_msg_loop_tail[OF uT]) simp_all
  have crc: "CRC_ADD (foldl CRC_ADD 0 bs) SYM_ETX = crc_of (bs @ [SYM_ETX])"
    by (simp add: crc_of_def)
  have eq: "rx_tail cs (rx_taken ?n bs ?cI) = rx_frame_done bs cs c"
    by (cases "use_crc c")
       (simp_all add: rx_tail_def rx_taken_def rx_frame_done_def crc sum_of_def add.assoc)
  have "len (tty_in c) - index (tty_in c) = ?n + 4 + length cs"
    using u length_unread[of "tty_in c"] by simp
  then have ex: "len (tty_in (accept_msg (rx_frame_done bs cs c)))
                   \<le> index (tty_in (accept_msg (rx_frame_done bs cs c)))"
    by (simp add: rx_frame_done_def)
  have "parse_tty_data c = parse_tty_data (accept_msg (rx_frame_done bs cs c))"
    using s1 s2 s3 s4 s5 eq by simp
  also have "\<dots> = accept_msg (rx_frame_done bs cs c)"
    by (rule parse_tty_data_done[OF accept_msg_inactive ex])
  finally show ?thesis .
qed

section \<open>Claims about the address codec\<close>

lemma small_ucast:
  assumes "a \<le> 254"
  shows "(ucast (a::u16) :: u8) \<noteq> 0xff" and "ucast (ucast a :: u8) = a"
proof -
  from assms have n: "unat a \<le> 254" by (simp add: word_le_nat_alt)
  have u: "unat (ucast a :: u8) = unat a" using n by (simp add: unsigned_ucast_eq take_bit_nat_eq_self)
  show "(ucast a :: u8) \<noteq> 0xff"
  proof
    assume "(ucast a :: u8) = 0xff"
    then have "unat (ucast a :: u8) = 255" by simp
    with u n show False by simp
  qed
  show "ucast (ucast a :: u8) = a" using n
    by (simp add: word_unat_eq_iff unsigned_ucast_eq unsigned_take_bit_eq take_bit_nat_eq_self)
qed

lemma word_of_bytes_split: "word_of_bytes (lo_byte a) (hi_byte a) = a"
  unfolding word_of_bytes_def lo_byte_def hi_byte_def
  by (rule bit_word_eqI) (auto simp: bit_simps)

text \<open>C8. \<open>addr_encode\<close> emits the single byte \<open>a\<close> for \<open>a \<le> 254\<close> and the three
  bytes 0xff, low byte, high byte for \<open>255 \<le> a \<le> 65535\<close> (\<open>addr_bytes\<close>), whenever the
  destination has room for them; \<open>addr_decode\<close>, reading at the place where the
  encoding was written, returns exactly \<open>a\<close> and leaves the read cursor just past the
  encoding.\<close>

theorem addr_encode_decode:
  assumes room: "len dest + length (addr_bytes a) \<le> maxsz dest"
  shows "fst (addr_encode dest a) = False
       \<and> contents (snd (addr_encode dest a)) = contents dest @ addr_bytes a
       \<and> addr_decode ((snd (addr_encode dest a))\<lparr>index := len dest\<rparr>)
           = (Some a, (snd (addr_encode dest a))\<lparr>index := len (snd (addr_encode dest a))\<rparr>)"
proof (cases "a \<le> 254")
  case True
  then have na: "\<not> a > 254" by simp
  from True room have r: "len dest \<noteq> maxsz dest" by (simp add: addr_bytes_def)
  show ?thesis
    using True na r small_ucast[OF True]
    by (simp add: addr_encode_def addr_decode_def addr_bytes_def buf_append_byte_def
        buf_get_byte_def contents_def)
next
  case False
  then have gt: "a > 254" by simp
  from False room have r: "len dest + 3 \<le> maxsz dest" by (simp add: addr_bytes_def)
  then have r1: "len dest \<noteq> maxsz dest" by simp
  show ?thesis
    using False gt r r1 word_of_bytes_split[of a]
    by (simp add: addr_encode_def addr_decode_def addr_bytes_def buf_append_byte_def
        buf_append_word_def buf_get_byte_def buf_get_word_def contents_def htols_def ltohs_def
        Let_def)
qed

theorem addr_encode_decode_witness:
  "len (buf_new (\<lambda>_. 0) 300) + length (addr_bytes 255) \<le> maxsz (buf_new (\<lambda>_. 0) 300)
   \<and> contents (snd (addr_encode (buf_new (\<lambda>_. 0) 300) 255)) = [0xff, 0xff, 0x00]
   \<and> addr_decode ((snd (addr_encode (buf_new (\<lambda>_. 0) 300) 255))\<lparr>index := 0\<rparr>)
       = (Some 255, (snd (addr_encode (buf_new (\<lambda>_. 0) 300) 255))\<lparr>index := 3\<rparr>)"
proof -
  have h: "len (buf_new (\<lambda>_. 0) 300) + length (addr_bytes 255) \<le> maxsz (buf_new (\<lambda>_. 0) 300)"
    by (simp add: buf_new_def buf_empty_def addr_bytes_def)
  have l: "len (snd (addr_encode (buf_new (\<lambda>_. 0) 300) 255)) = 3"
    by (simp add: addr_encode_def buf_new_def buf_empty_def buf_append_byte_def
        buf_append_word_def Let_def)
  show ?thesis
    using h l addr_encode_decode[OF h]
    by (simp add: buf_new_def buf_empty_def addr_bytes_def contents_def lo_byte_def hi_byte_def)
qed

section \<open>Claims about the receiver timeout\<close>

lemma rx_tick_inactive: "\<not> rx_active (rx c) \<Longrightarrow> rx_tick c = c"
  by (simp add: rx_tick_def rx_active_def)

lemma rx_tick_running:
  assumes "rx_active (rx c)" and "rx_tticks (rx c) = 501" and "rx_eticks (rx c) = of_nat k"
    and "k < 501"
  shows "rx_tick c = c\<lparr>rx := (rx c)\<lparr>rx_eticks := of_nat (Suc k)\<rparr>\<rparr>"
proof -
  have s: "(of_nat k + 1 :: u32) = of_nat (Suc k)" by simp
  from assms(4) have "unat (of_nat (Suc k) :: u32) = Suc k"
    by (simp add: unsigned_of_nat take_bit_nat_eq_self del: of_nat_Suc)
  with assms(4) have "\<not> (of_nat (Suc k) :: u32) > 501"
    by (simp add: word_less_nat_alt del: of_nat_Suc)
  with assms(1,2,3) show ?thesis
    unfolding rx_tick_def rx_active_def Let_def
    by (simp add: s del: of_nat_Suc)
qed

lemma rx_tick_iter:
  assumes "rx_active (rx c)" and "rx_tticks (rx c) = 501" and "rx_eticks (rx c) = 0"
  shows "n \<le> 501 \<Longrightarrow> (rx_tick ^^ n) c = c\<lparr>rx := (rx c)\<lparr>rx_eticks := of_nat n\<rparr>\<rparr>"
proof (induction n)
  case 0
  with assms(3) show ?case by simp
next
  case (Suc n)
  let ?c = "c\<lparr>rx := (rx c)\<lparr>rx_eticks := of_nat n\<rparr>\<rparr>"
  from Suc have ih: "(rx_tick ^^ n) c = ?c" and n: "n < 501" by simp_all
  have "rx_tick ?c = ?c\<lparr>rx := (rx ?c)\<lparr>rx_eticks := of_nat (Suc n)\<rparr>\<rparr>"
    using assms(1,2) n by (intro rx_tick_running) (simp_all add: rx_active_def)
  with ih show ?case by (simp del: of_nat_Suc)
qed

lemma rx_tick_expire:
  assumes "rx_active (rx c)" and "rx_tticks (rx c) = 501" and "rx_eticks (rx c) = 501"
  shows "rx_tick c = c\<lparr>rx := (rx c)\<lparr>rx_eticks := 502, rx_state := RX_IDLE,
                                      last_was_ack := False\<rparr>\<rparr>"
  using assms by (simp add: rx_tick_def rx_active_def rx_set_nak_def Let_def)

text \<open>C7 (as amended). \<open>rx_init\<close> sets the receiver timeout to 501 ticks (5 s of 10 ms
  ticks, plus one). \<open>rx_tick\<close> changes nothing while the receiver is in \<open>RX_IDLE\<close> or
  \<open>RX_PEND\<close>. While it is in \<open>RX_APP\<close>, \<open>RX_CS1\<close> or \<open>RX_CS2\<close> each tick only advances
  the elapsed count, for the first 501 ticks after the count was reset; the 502nd tick
  returns the receiver to \<open>RX_IDLE\<close> and clears \<open>last_was_ack\<close>, and nothing else of
  the connection changes (no NAK is put in the TTY output buffer).\<close>

theorem rx_timeout_window:
  "rx_tticks (rx (rx_init mem conn dd)) = 501
   \<and> (\<not> rx_active (rx c) \<longrightarrow> rx_tick c = c)
   \<and> (rx_active (rx c) \<and> rx_tticks (rx c) = 501 \<and> rx_eticks (rx c) = 0 \<and> n \<le> 501
        \<longrightarrow> (rx_tick ^^ n) c = c\<lparr>rx := (rx c)\<lparr>rx_eticks := of_nat n\<rparr>\<rparr>)
   \<and> (rx_active (rx c) \<and> rx_tticks (rx c) = 501 \<and> rx_eticks (rx c) = 0
        \<longrightarrow> (rx_tick ^^ 502) c
            = c\<lparr>rx := (rx c)\<lparr>rx_eticks := 502, rx_state := RX_IDLE, last_was_ack := False\<rparr>\<rparr>)"
proof (intro conjI impI)
  show "rx_tticks (rx (rx_init mem conn dd)) = 501"
    by (simp add: rx_init_def rx_set_nak_def TICK_USEC_def)
next
  assume "\<not> rx_active (rx c)"
  then show "rx_tick c = c" by (rule rx_tick_inactive)
next
  assume "rx_active (rx c) \<and> rx_tticks (rx c) = 501 \<and> rx_eticks (rx c) = 0 \<and> n \<le> 501"
  then show "(rx_tick ^^ n) c = c\<lparr>rx := (rx c)\<lparr>rx_eticks := of_nat n\<rparr>\<rparr>"
    using rx_tick_iter[of c n] by simp
next
  assume a: "rx_active (rx c) \<and> rx_tticks (rx c) = 501 \<and> rx_eticks (rx c) = 0"
  let ?c = "c\<lparr>rx := (rx c)\<lparr>rx_eticks := 501\<rparr>\<rparr>"
  have "(rx_tick ^^ 501) c = ?c"
    using a rx_tick_iter[of c 501] by simp
  moreover have "rx_tick ?c = ?c\<lparr>rx := (rx ?c)\<lparr>rx_eticks := 502, rx_state := RX_IDLE,
                                               last_was_ack := False\<rparr>\<rparr>"
    using a by (intro rx_tick_expire) (simp_all add: rx_active_def)
  moreover have "(rx_tick ^^ 502) c = rx_tick ((rx_tick ^^ 501) c)"
  proof -
    have "(502::nat) = Suc 501" by simp
    then show ?thesis by (simp only: funpow.simps o_apply)
  qed
  ultimately show "(rx_tick ^^ 502) c
      = c\<lparr>rx := (rx c)\<lparr>rx_eticks := 502, rx_state := RX_IDLE, last_was_ack := False\<rparr>\<rparr>"
    by simp
qed

text \<open>A connection as \<open>conn_init\<close> leaves it, in which \<open>rx_msg\<close> has just started a
  message (no byte to read yet).\<close>

definition conn_receiving :: CONN where
  "conn_receiving = rx_msg (conn_init (\<lambda>_. 0) True 3 3 False 200)"

lemma conn_receiving_rx:
  "rx_state (rx conn_receiving) = RX_APP \<and> rx_tticks (rx conn_receiving) = 501
   \<and> rx_eticks (rx conn_receiving) = 0"
  by (simp add: conn_receiving_def rx_msg_def conn_init_def conn_calloc_def tx_init_def
      rx_init_def rx_set_nak_def cs_clear_def buf_new_def buf_empty_def Let_def TICK_USEC_def
      rx_msg_loop.simps buf_get_byte_def)

theorem rx_timeout_window_witness:
  "rx_active (rx conn_receiving)
   \<and> rx_state (rx ((rx_tick ^^ 501) conn_receiving)) = RX_APP
   \<and> rx_state (rx ((rx_tick ^^ 502) conn_receiving)) = RX_IDLE
   \<and> tty_out ((rx_tick ^^ 502) conn_receiving) = tty_out conn_receiving
   \<and> rx_tick (conn_init (\<lambda>_. 0) True 3 3 False 200) = conn_init (\<lambda>_. 0) True 3 3 False 200"
proof -
  have a: "rx_active (rx conn_receiving)"
    using conn_receiving_rx by (simp add: rx_active_def)
  have i: "\<not> rx_active (rx (conn_init (\<lambda>_. 0) True 3 3 False 200))"
    by (simp add: conn_init_def rx_init_def rx_active_def Let_def)
  show ?thesis
    using a i conn_receiving_rx
      rx_timeout_window[of "\<lambda>_. 0" conn_receiving False conn_receiving 501]
      rx_timeout_window[of "\<lambda>_. 0" conn_receiving False "conn_init (\<lambda>_. 0) True 3 3 False 200" 0]
    by simp
qed

text \<open>The claim as stated gives the window as 500 ticks: 501 ticks after the message
  started the receiver is still receiving.\<close>

theorem rx_timeout_500_counterexample:
  "rx_tticks (rx conn_receiving) \<noteq> 500
   \<and> rx_state (rx ((rx_tick ^^ 500) conn_receiving)) = RX_APP
   \<and> rx_state (rx ((rx_tick ^^ 501) conn_receiving)) = RX_APP"
  using conn_receiving_rx rx_tick_iter[of conn_receiving 500] rx_tick_iter[of conn_receiving 501]
  by (simp add: rx_active_def)

section \<open>Claims about the acceptance of a received frame\<close>

text \<open>The comparison of \<open>msg_dup\<close>: the payload bytes at offsets 1, 2, 4 and 5 against
  the four stored bytes.\<close>

definition fingerprint :: "BUF \<Rightarrow> u8 list" where
  "fingerprint a = [data a 1, data a 2, data a 4, data a 5]"

definition fingerprint_match :: "CONN \<Rightarrow> bool" where
  "fingerprint_match conn =
     (let a = app (rx conn); d = dup (rx conn)
      in data a 1 = d ! 0 \<and> data a 2 = d ! 1 \<and> data a 4 = d ! 2 \<and> data a 5 = d ! 3)"

text \<open>The connection as \<open>accept_msg\<close> passes it on once runt and checksum tests are
  passed and the frame is no duplicate: the fingerprint is stored when duplicate
  detection is on, the message is counted and the receiver is pending.\<close>

definition accepted :: "CONN \<Rightarrow> CONN" where
  "accepted conn =
     conn\<lparr>dcnts := (dcnts conn)\<lparr>msg_rx := msg_rx (dcnts conn) + 1\<rparr>,
          rx := (rx conn)\<lparr>dup := (if dup_detect (rx conn) then fingerprint (app (rx conn))
                                   else dup (rx conn)),
                          rx_state := RX_PEND\<rparr>\<rparr>"




lemma accept_msg_deliver:
  "\<not> len (app (rx c)) < 6 \<Longrightarrow> cs_ok c \<Longrightarrow> \<not> (dup_detect (rx c) \<and> fingerprint_match c) \<Longrightarrow>
   accept_msg c = client_msg_rx (accepted c)"
  by (auto simp: accept_msg_def msg_dup_def fingerprint_match_def fingerprint_def Let_def
      accepted_def)







text \<open>Connections to run the receiver on: \<open>conn_init\<close> followed by the registration of
  one client at address 5, with a given payload already assembled by the receiver.\<close>

definition conn_one_client :: "bool \<Rightarrow> bool \<Rightarrow> CONN" where
  "conn_one_client crc dd =
     (conn_init (\<lambda>_. 0) crc 3 3 dd 200)\<lparr>clients := [client_registered (\<lambda>_. 0) 5]\<rparr>"

definition with_app :: "u8 list \<Rightarrow> CONN \<Rightarrow> CONN" where
  "with_app xs conn = conn\<lparr>rx := (rx conn)\<lparr>app := buf_of xs RX_BUF_SIZE\<rparr>\<rparr>"

lemmas fixture_defs = conn_one_client_def with_app_def conn_init_def conn_calloc_def
  client_registered_def buf_of_def buf_new_def buf_empty_def tx_init_def rx_init_def
  rx_set_nak_def zero_link_cnt_def zero_client_cnt_def TX_BUF_SIZE_def RX_BUF_SIZE_def
  TTY_BUF_SIZE_def CLIENT_BUF_SIZE_def TICK_USEC_def


section \<open>Claims about framing, checksums and the round trip\<close>

lemma length_spec_stuff: "length (spec_stuff bs) \<le> 2 * length bs"
  by (induction bs) simp_all

lemma tx_msg_frame_fits:
  assumes e: "len m = 0" and fit: "length (spec_frame crc_mode (unread df1)) \<le> maxsz m"
  shows "contents (fst (snd (tx_msg_frame crc_mode df1 m))) = spec_frame crc_mode (unread df1)"
    and "\<not> snd (snd (tx_msg_frame crc_mode df1 m))"
    and "len (fst (snd (tx_msg_frame crc_mode df1 m))) = length (spec_frame crc_mode (unread df1))"
proof -
  let ?B = "unread df1"
  define pre where "pre = [SYM_DLE, SYM_STX] @ spec_stuff ?B @ [SYM_DLE, SYM_ETX]"
  define m5 where "m5 = append_bytes m pre"
  have l: "len m \<le> maxsz m" using e by simp
  have c0: "contents m = []" using e by (simp add: contents_def)
  from fit have p: "length pre + (if crc_mode then 2 else 1) \<le> maxsz m"
    by (auto simp: length_spec_frame pre_def split: if_splits)
  have c5: "contents m5 = pre"
    unfolding m5_def using contents_append_bytes[OF l, of pre] c0 p by simp
  have l5: "len m5 = length pre"
    unfolding m5_def using len_append_bytes[OF l, of pre] e p by simp
  have mx: "maxsz m5 = maxsz m" by (simp add: m5_def)
  have fr: "spec_frame crc_mode ?B = pre @ code_checksum crc_mode ?B"
    by (simp add: spec_frame_def code_checksum_spec sym_defs pre_def)
  have m6: "fst (snd (tx_msg_frame crc_mode df1 m)) =
      (if crc_mode then snd (buf_append_word m5 (crc_of (?B @ [SYM_ETX])))
       else snd (buf_append_byte m5 (NOT (sum_of ?B) + 1)))"
    unfolding m5_def pre_def by (simp only: tx_msg_frame_spec[OF l] Let_def fst_conv snd_conv)
  show c: "contents (fst (snd (tx_msg_frame crc_mode df1 m))) = spec_frame crc_mode ?B"
  proof (cases crc_mode)
    case True
    with p l5 mx have "len m5 + 2 \<le> maxsz m5" by simp
    from contents_append_word[OF this] True show ?thesis
      unfolding m6 fr code_checksum_def by (simp add: c5)
  next
    case False
    with p l5 mx have "len m5 \<noteq> maxsz m5" by simp
    from contents_append_byte[OF this] False show ?thesis
      unfolding m6 fr code_checksum_def by (simp add: c5)
  qed
  show "\<not> snd (snd (tx_msg_frame crc_mode df1 m))"
    using fit e by (simp add: tx_msg_frame_spec[OF l])
  show "len (fst (snd (tx_msg_frame crc_mode df1 m))) = length (spec_frame crc_mode ?B)"
    using c length_contents[of "fst (snd (tx_msg_frame crc_mode df1 m))"] by simp
qed

text \<open>\<open>tx_msg\<close> when the frame fits the transmitter's buffer and the TTY output
  buffer has room for it.\<close>

lemma tx_msg_sent:
  assumes e: "len (msg (tx s)) = 0"
    and fit: "length (spec_frame (use_crc s) (unread (df1_tx (clients s ! i)))) \<le> maxsz (msg (tx s))"
    and room: "len (tty_out s) + length (spec_frame (use_crc s) (unread (df1_tx (clients s ! i))))
                 \<le> maxsz (tty_out s)"
  shows "contents (tty_out (tx_msg s i))
       = contents (tty_out s) @ spec_frame (use_crc s) (unread (df1_tx (clients s ! i)))"
    and "tx_state (tx (tx_msg s i)) = TX_PEND_MSG_TX"
    and "tx_client (tx (tx_msg s i)) = Some i"
    and "contents (msg (tx (tx_msg s i))) = spec_frame (use_crc s) (unread (df1_tx (clients s ! i)))"
    and "tx_attempts (dcnts (tx_msg s i)) = tx_attempts (dcnts s) + 1"
proof -
  let ?fr = "tx_msg_frame (use_crc s) (df1_tx (clients s ! i)) (msg (tx s))"
  let ?m = "fst (snd ?fr)"
  note f = tx_msg_frame_fits[OF e fit]
  have r: "\<not> maxsz (tty_out s) < len (tty_out s) + len ?m" using room f(3) by simp
  have r': "len (tty_out s) + len ?m \<le> maxsz (tty_out s)" using room f(3) by simp
  have t: "tx_msg s i =
     s\<lparr>clients := (clients s)[i := (clients s ! i)\<lparr>df1_tx := fst ?fr\<rparr>],
       tx := (tx s)\<lparr>msg := ?m, tx_client := Some i, tx_state := TX_PEND_MSG_TX\<rparr>,
       tty_out := snd (buf_append_buf (tty_out s) ?m),
       dcnts := (dcnts s)\<lparr>tx_attempts := tx_attempts (dcnts s) + 1\<rparr>\<rparr>"
    using r
    by (subst tx_msg.simps, subst send_msg.simps)
       (simp add: Let_def prod.case_eq_if bool.case_eq_if fst_append_buf)
  show "contents (tty_out (tx_msg s i))
       = contents (tty_out s) @ spec_frame (use_crc s) (unread (df1_tx (clients s ! i)))"
    using contents_append_buf[OF r'] f(1) by (simp add: t)
  show "tx_state (tx (tx_msg s i)) = TX_PEND_MSG_TX" by (simp add: t)
  show "tx_client (tx (tx_msg s i)) = Some i" by (simp add: t)
  show "contents (msg (tx (tx_msg s i))) = spec_frame (use_crc s) (unread (df1_tx (clients s ! i)))"
    using f(1) by (simp add: t)
  show "tx_attempts (dcnts (tx_msg s i)) = tx_attempts (dcnts s) + 1" by (simp add: t)
qed

lemma contents_app_accept_msg: "contents (app (rx (accept_msg c))) = contents (app (rx c))"
  by (simp add: accept_msg_def msg_dup_def client_msg_rx_def rx_nak_def rx_ack_def
      rx_set_nak_def buf_get_byte_def contents_def Let_def
      split: prod.splits bool.splits option.splits)

lemma frame_received:
  assumes "rx_state (rx r) = RX_IDLE" and "\<not> read_sym r"
    and "unread (tty_in r) = spec_frame (use_crc r) bs"
    and "length bs \<le> maxsz (app (rx r))"
  shows "parse_tty_data r = accept_msg (rx_frame_done bs (spec_checksum (use_crc r) bs) r)"
proof -
  have u: "unread (tty_in r)
      = [SYM_DLE, SYM_STX] @ spec_stuff bs @ [SYM_DLE, SYM_ETX] @ spec_checksum (use_crc r) bs"
    using assms(3) by (simp add: spec_frame_def sym_defs)
  have l: "length (spec_checksum (use_crc r) bs) = (if use_crc r then 2 else 1)"
    by (simp add: spec_checksum_def)
  show ?thesis by (rule parse_tty_data_frame[OF assms(1,2) u l assms(4)])
qed

lemma word_of_lo_hi: "(ucast (lo_byte w) :: u16) + push_bit 8 (ucast (hi_byte w)) = w"
proof -
  have "(ucast (lo_byte w) :: u16) AND push_bit 8 (ucast (hi_byte w)) = 0"
    by (rule bit_word_eqI) (auto simp: bit_simps lo_byte_def hi_byte_def)
  then have "(ucast (lo_byte w) :: u16) + push_bit 8 (ucast (hi_byte w))
      = ucast (lo_byte w) OR push_bit 8 (ucast (hi_byte w))"
    by (rule disjunctive_add_eq_or)
  also have "\<dots> = w" using word_of_bytes_split[of w] by (simp add: word_of_bytes_def)
  finally show ?thesis .
qed

lemma cs_ok_frame_done:
  "cs_ok (rx_frame_done bs (spec_checksum (use_crc r) bs) r)"
proof (cases "use_crc r")
  case True
  have "spec_checksum True bs = [lo_byte (crc_of (bs @ [SYM_ETX])), hi_byte (crc_of (bs @ [SYM_ETX]))]"
    using code_checksum_spec[of True bs] by (simp add: code_checksum_def)
  with True show ?thesis
    by (simp add: cs_ok_def rx_frame_done_def word_of_lo_hi)
next
  case False
  have "spec_checksum False bs = [NOT (sum_of bs) + 1]"
    using code_checksum_spec[of False bs] by (simp add: code_checksum_def)
  with False show ?thesis
    by (simp add: cs_ok_def rx_frame_done_def)
qed

text \<open>C1. A client's message \<open>B\<close> of at most 236 bytes, framed by \<open>tx_msg\<close> (the
  transmitter's buffer empty and of 512 bytes, room for the frame in the TTY output
  buffer), goes on the wire as DLE STX, the payload with every DLE doubled, DLE ETX
  and the checksum; and a receiver that is idle, in the same checksum mode, with
  the 512 byte application buffer, and that reads exactly these wire bytes from its
  TTY input has exactly \<open>B\<close> in its application buffer after \<open>parse_tty_data\<close>.
  The checksum mode \<open>use_crc\<close> is arbitrary.\<close>

theorem df1_frame_roundtrip:
  assumes "length B \<le> 236"
    and "unread (df1_tx (clients s ! i)) = B"
    and "len (msg (tx s)) = 0" and "maxsz (msg (tx s)) = TX_BUF_SIZE"
    and "len (tty_out s) + length (spec_frame (use_crc s) B) \<le> maxsz (tty_out s)"
    and "rx_state (rx r) = RX_IDLE" and "\<not> read_sym r" and "use_crc r = use_crc s"
    and "maxsz (app (rx r)) = RX_BUF_SIZE"
    and "unread (tty_in r) = drop (len (tty_out s)) (contents (tty_out (tx_msg s i)))"
  shows "drop (len (tty_out s)) (contents (tty_out (tx_msg s i)))
           = [0x10, 0x02] @ spec_stuff B @ [0x10, 0x03] @ spec_checksum (use_crc s) B
       \<and> contents (app (rx (parse_tty_data r))) = B"
proof -
  have "length (spec_frame (use_crc s) B) \<le> 2 * length B + 6"
    using length_spec_stuff[of B] by (simp add: length_spec_frame)
  with assms(1,4) have fit: "length (spec_frame (use_crc s) (unread (df1_tx (clients s ! i))))
      \<le> maxsz (msg (tx s))"
    by (simp add: assms(2) TX_BUF_SIZE_def)
  have room: "len (tty_out s) + length (spec_frame (use_crc s) (unread (df1_tx (clients s ! i))))
                 \<le> maxsz (tty_out s)"
    using assms(5) by (simp add: assms(2))
  have w: "drop (len (tty_out s)) (contents (tty_out (tx_msg s i))) = spec_frame (use_crc s) B"
    using tx_msg_sent(1)[OF assms(3) fit room] by (simp add: assms(2))
  have u: "unread (tty_in r) = spec_frame (use_crc r) B"
    using assms(10) w assms(8) by simp
  have l: "length B \<le> maxsz (app (rx r))" using assms(1,9) by (simp add: RX_BUF_SIZE_def)
  have "parse_tty_data r = accept_msg (rx_frame_done B (spec_checksum (use_crc r) B) r)"
    by (rule frame_received[OF assms(6,7) u l])
  then have "contents (app (rx (parse_tty_data r)))
      = contents (append_bytes (buf_empty (app (rx r))) B)"
    by (simp add: contents_app_accept_msg rx_frame_done_def)
  also have "\<dots> = B"
    using contents_append_bytes[of "buf_empty (app (rx r))" B] l
    by (simp add: buf_empty_def contents_def)
  finally show ?thesis using w by (simp add: spec_frame_def)
qed

text \<open>A sender whose client at address 5 has the message 05 00 10 00 01 00 07 ready,
  and a receiver that has read the given bytes from its TTY.\<close>

definition conn_sender :: "bool \<Rightarrow> CONN" where
  "conn_sender crc =
     (conn_one_client crc False)
       \<lparr>clients := [(client_registered (\<lambda>_. 0) 5)
                      \<lparr>df1_tx := buf_of [0x05, 0x00, 0x10, 0x00, 0x01, 0x00, 0x07] CLIENT_BUF_SIZE,
                       cstate := CLIENT_MSG_READY\<rparr>]\<rparr>"

definition conn_receiver :: "bool \<Rightarrow> u8 list \<Rightarrow> CONN" where
  "conn_receiver crc wire = (conn_one_client crc False)\<lparr>tty_in := buf_of wire TTY_BUF_SIZE\<rparr>"

lemma unread_buf_of [simp]: "unread (buf_of xs n) = xs"
  unfolding unread_def buf_of_def by (rule nth_equalityI) simp_all

lemma conn_sender_wire:
  "drop (len (tty_out (conn_sender False))) (contents (tty_out (tx_msg (conn_sender False) 0)))
     = [0x10, 0x02, 0x05, 0x00, 0x10, 0x10, 0x00, 0x01, 0x00, 0x07, 0x10, 0x03, 0xe3]"
proof -
  have u: "unread (df1_tx (clients (conn_sender False) ! 0)) = [0x05, 0x00, 0x10, 0x00, 0x01, 0x00, 0x07]"
    by (simp add: conn_sender_def)
  have f: "spec_frame False [0x05, 0x00, 0x10, 0x00, 0x01, 0x00, 0x07]
     = [0x10, 0x02, 0x05, 0x00, 0x10, 0x10, 0x00, 0x01, 0x00, 0x07, 0x10, 0x03, 0xe3]"
    by (simp add: spec_frame_def spec_checksum_def spec_bcc_def)
  have uc: "use_crc (conn_sender False) = False"
    and b: "len (msg (tx (conn_sender False))) = 0" "maxsz (msg (tx (conn_sender False))) = 512"
      "len (tty_out (conn_sender False)) = 0" "maxsz (tty_out (conn_sender False)) = 512"
    by (simp_all add: conn_sender_def fixture_defs)
  have "contents (tty_out (tx_msg (conn_sender False) 0))
      = contents (tty_out (conn_sender False))
        @ spec_frame (use_crc (conn_sender False)) (unread (df1_tx (clients (conn_sender False) ! 0)))"
    by (rule tx_msg_sent(1)) (simp_all add: u uc f b)
  then show ?thesis
    by (simp add: u uc f b contents_def)
qed

theorem df1_frame_roundtrip_witness:
  "contents (app (rx (parse_tty_data (conn_receiver False
      [0x10, 0x02, 0x05, 0x00, 0x10, 0x10, 0x00, 0x01, 0x00, 0x07, 0x10, 0x03, 0xe3]))))
   = [0x05, 0x00, 0x10, 0x00, 0x01, 0x00, 0x07]"
proof -
  let ?B = "[0x05, 0x00, 0x10, 0x00, 0x01, 0x00, 0x07] :: u8 list"
  let ?s = "conn_sender False"
  let ?r = "conn_receiver False
      [0x10, 0x02, 0x05, 0x00, 0x10, 0x10, 0x00, 0x01, 0x00, 0x07, 0x10, 0x03, 0xe3]"
  have h1: "length ?B \<le> 236" by simp
  have h2: "unread (df1_tx (clients ?s ! 0)) = ?B" by (simp add: conn_sender_def)
  have h3: "len (msg (tx ?s)) = 0" and h4: "maxsz (msg (tx ?s)) = TX_BUF_SIZE"
    by (simp_all add: conn_sender_def fixture_defs)
  have h5: "len (tty_out ?s) + length (spec_frame (use_crc ?s) ?B) \<le> maxsz (tty_out ?s)"
    by (simp add: length_spec_frame) (simp add: conn_sender_def fixture_defs)
  have h6: "rx_state (rx ?r) = RX_IDLE" and h7: "\<not> read_sym ?r"
    and h8: "use_crc ?r = use_crc ?s" and h9: "maxsz (app (rx ?r)) = RX_BUF_SIZE"
    by (simp_all add: conn_receiver_def conn_sender_def fixture_defs)
  have h10: "unread (tty_in ?r) = drop (len (tty_out ?s)) (contents (tty_out (tx_msg ?s 0)))"
    by (simp only: conn_sender_wire) (simp add: conn_receiver_def)
  from df1_frame_roundtrip[OF h1 h2 h3 h4 h5 h6 h7 h8 h9 h10] show ?thesis by simp
qed

section \<open>The first frame on a new connection\<close>




lemma bad_cs_accept_msg:
  "cs_ok c \<Longrightarrow> bad_cs (dcnts (accept_msg c)) = bad_cs (dcnts c)"
  by (simp add: accept_msg_def msg_dup_def client_msg_rx_def rx_nak_def rx_ack_def
      Let_def split: prod.splits bool.splits option.splits)

lemma acc_cs_frame_done:
  "use_crc r \<Longrightarrow> unat (acc_cs_crc (rx (rx_frame_done bs cs r))) = spec_crc16 (bs @ [0x03])"
  "\<not> use_crc r \<Longrightarrow> uint (NOT (acc_cs_bcc (rx (rx_frame_done bs cs r))) + 1) = spec_bcc bs"
  by (simp_all add: rx_frame_done_def crc_of_spec sum_of_spec SYM_ETX_def)

text \<open>C2. For a client's message \<open>B\<close> whose frame fits the transmitter's buffer (and
  the TTY output buffer), the bytes that \<open>tx_msg\<close> sends after DLE ETX are, in CRC
  mode, the CRC-16 (polynomial 0xA001, initial value 0, reflected) of \<open>B\<close> followed by
  ETX, low byte first, and in BCC mode the one byte \<open>(- \<Sum> B) mod 256\<close>
  (\<open>spec_checksum\<close>). A receiver of the same mode that reads this frame hands
  \<open>accept_msg\<close> a connection in which the accumulated checksum (\<open>cs_add\<close> over the
  same bytes) is this value and \<open>cs_ok\<close> holds, so the frame is not counted as a bad
  checksum.\<close>

theorem checksum_sent_and_checked:
  assumes "unread (df1_tx (clients s ! i)) = B"
    and "len (msg (tx s)) = 0"
    and "length (spec_frame (use_crc s) B) \<le> maxsz (msg (tx s))"
    and "len (tty_out s) + length (spec_frame (use_crc s) B) \<le> maxsz (tty_out s)"
    and "rx_state (rx r) = RX_IDLE" and "\<not> read_sym r" and "use_crc r = use_crc s"
    and "length B \<le> maxsz (app (rx r))"
    and "unread (tty_in r) = drop (len (tty_out s)) (contents (tty_out (tx_msg s i)))"
  shows "drop (len (tty_out s) + length (spec_stuff B) + 4) (contents (tty_out (tx_msg s i)))
           = (if use_crc s
              then [of_nat (spec_crc16 (B @ [0x03]) mod 256), of_nat (spec_crc16 (B @ [0x03]) div 256)]
              else [of_int (spec_bcc B)])
       \<and> parse_tty_data r = accept_msg (rx_frame_done B (spec_checksum (use_crc r) B) r)
       \<and> cs_ok (rx_frame_done B (spec_checksum (use_crc r) B) r)
       \<and> (if use_crc r
            then unat (acc_cs_crc (rx (rx_frame_done B (spec_checksum (use_crc r) B) r)))
                   = spec_crc16 (B @ [0x03])
            else uint (NOT (acc_cs_bcc (rx (rx_frame_done B (spec_checksum (use_crc r) B) r))) + 1)
                   = spec_bcc B)
       \<and> bad_cs (dcnts (parse_tty_data r)) = bad_cs (dcnts r)"
proof -
  have fit: "length (spec_frame (use_crc s) (unread (df1_tx (clients s ! i)))) \<le> maxsz (msg (tx s))"
    using assms(3) by (simp add: assms(1))
  have room: "len (tty_out s) + length (spec_frame (use_crc s) (unread (df1_tx (clients s ! i))))
                 \<le> maxsz (tty_out s)"
    using assms(4) by (simp add: assms(1))
  have c: "contents (tty_out (tx_msg s i)) = contents (tty_out s) @ spec_frame (use_crc s) B"
    using tx_msg_sent(1)[OF assms(2) fit room] by (simp add: assms(1))
  have w: "drop (len (tty_out s)) (contents (tty_out (tx_msg s i))) = spec_frame (use_crc s) B"
    using c by simp
  have "drop (len (tty_out s) + length (spec_stuff B) + 4) (contents (tty_out (tx_msg s i)))
      = drop (length (spec_stuff B) + 4) (spec_frame (use_crc s) B)"
    using c by (simp add: add.assoc)
  also have "\<dots> = spec_checksum (use_crc s) B"
  proof -
    have "spec_frame (use_crc s) B
        = ([0x10, 0x02] @ spec_stuff B @ [0x10, 0x03]) @ spec_checksum (use_crc s) B"
      by (simp add: spec_frame_def)
    moreover have "length ([0x10, 0x02 :: u8] @ spec_stuff B @ [0x10, 0x03])
        = length (spec_stuff B) + 4"
      by simp
    ultimately show ?thesis by (metis append_eq_conv_conj)
  qed
  finally have p1: "drop (len (tty_out s) + length (spec_stuff B) + 4) (contents (tty_out (tx_msg s i)))
           = (if use_crc s
              then [of_nat (spec_crc16 (B @ [0x03]) mod 256), of_nat (spec_crc16 (B @ [0x03]) div 256)]
              else [of_int (spec_bcc B)])"
    by (simp add: spec_checksum_def)
  have u: "unread (tty_in r) = spec_frame (use_crc r) B"
    using assms(9) w assms(7) by simp
  let ?d = "rx_frame_done B (spec_checksum (use_crc r) B) r"
  have p2: "parse_tty_data r = accept_msg ?d"
    by (rule frame_received[OF assms(5,6) u assms(8)])
  have p3: "cs_ok ?d" by (rule cs_ok_frame_done)
  have p4: "if use_crc r then unat (acc_cs_crc (rx ?d)) = spec_crc16 (B @ [0x03])
            else uint (NOT (acc_cs_bcc (rx ?d)) + 1) = spec_bcc B"
    using acc_cs_frame_done[of r B "spec_checksum (use_crc r) B"] by simp
  have p5: "bad_cs (dcnts (parse_tty_data r)) = bad_cs (dcnts r)"
    using bad_cs_accept_msg[OF p3] by (simp add: p2, simp add: rx_frame_done_def)
  from p1 p2 p3 p4 p5 show ?thesis by (intro conjI)
qed

lemma funpow_8: "(f ^^ 8) x = f (f (f (f (f (f (f (f x)))))))"
  by (simp add: eval_nat_numeral)

lemma spec_crc16_example:
  "spec_crc16 [0x05, 0x00, 0x10, 0x00, 0x01, 0x00, 0x07, 0x03] = 25217"
  by (simp add: spec_crc16_def spec_crc_byte_def spec_crc_bit_def funpow_8)

lemma spec_frame_crc_example:
  "spec_frame True [0x05, 0x00, 0x10, 0x00, 0x01, 0x00, 0x07]
     = [0x10, 0x02, 0x05, 0x00, 0x10, 0x10, 0x00, 0x01, 0x00, 0x07, 0x10, 0x03, 0x81, 0x62]"
  by (simp add: spec_frame_def spec_checksum_def spec_crc16_example)

lemma conn_sender_wire_crc:
  "drop (len (tty_out (conn_sender True))) (contents (tty_out (tx_msg (conn_sender True) 0)))
     = [0x10, 0x02, 0x05, 0x00, 0x10, 0x10, 0x00, 0x01, 0x00, 0x07, 0x10, 0x03, 0x81, 0x62]"
proof -
  have u: "unread (df1_tx (clients (conn_sender True) ! 0)) = [0x05, 0x00, 0x10, 0x00, 0x01, 0x00, 0x07]"
    by (simp add: conn_sender_def)
  have uc: "use_crc (conn_sender True) = True"
    and b: "len (msg (tx (conn_sender True))) = 0" "maxsz (msg (tx (conn_sender True))) = 512"
      "len (tty_out (conn_sender True)) = 0" "maxsz (tty_out (conn_sender True)) = 512"
    by (simp_all add: conn_sender_def fixture_defs)
  have "contents (tty_out (tx_msg (conn_sender True) 0))
      = contents (tty_out (conn_sender True))
        @ spec_frame (use_crc (conn_sender True)) (unread (df1_tx (clients (conn_sender True) ! 0)))"
    by (rule tx_msg_sent(1)) (simp_all add: u uc spec_frame_crc_example b)
  then show ?thesis
    by (simp add: u uc spec_frame_crc_example b contents_def)
qed

theorem checksum_sent_and_checked_witness:
  "drop 12 (contents (tty_out (tx_msg (conn_sender True) 0))) = [0x81, 0x62]
   \<and> cs_ok (rx_frame_done [0x05, 0x00, 0x10, 0x00, 0x01, 0x00, 0x07] [0x81, 0x62]
        (conn_receiver True
          [0x10, 0x02, 0x05, 0x00, 0x10, 0x10, 0x00, 0x01, 0x00, 0x07, 0x10, 0x03, 0x81, 0x62]))
   \<and> bad_cs (dcnts (parse_tty_data (conn_receiver True
          [0x10, 0x02, 0x05, 0x00, 0x10, 0x10, 0x00, 0x01, 0x00, 0x07, 0x10, 0x03, 0x81, 0x62]))) = 0"
proof -
  let ?B = "[0x05, 0x00, 0x10, 0x00, 0x01, 0x00, 0x07] :: u8 list"
  let ?s = "conn_sender True"
  let ?r = "conn_receiver True
      [0x10, 0x02, 0x05, 0x00, 0x10, 0x10, 0x00, 0x01, 0x00, 0x07, 0x10, 0x03, 0x81, 0x62]"
  have uc: "use_crc ?s = True" "use_crc ?r = True"
    by (simp_all add: conn_sender_def conn_receiver_def fixture_defs)
  have h1: "unread (df1_tx (clients ?s ! 0)) = ?B" by (simp add: conn_sender_def)
  have h2: "len (msg (tx ?s)) = 0" by (simp add: conn_sender_def fixture_defs)
  have h3: "length (spec_frame (use_crc ?s) ?B) \<le> maxsz (msg (tx ?s))"
    by (simp add: uc spec_frame_crc_example) (simp add: conn_sender_def fixture_defs)
  have h4: "len (tty_out ?s) + length (spec_frame (use_crc ?s) ?B) \<le> maxsz (tty_out ?s)"
    by (simp add: uc spec_frame_crc_example) (simp add: conn_sender_def fixture_defs)
  have h5: "rx_state (rx ?r) = RX_IDLE" and h6: "\<not> read_sym ?r"
    and h7: "use_crc ?r = use_crc ?s" and h8: "length ?B \<le> maxsz (app (rx ?r))"
    by (simp_all add: conn_receiver_def conn_sender_def fixture_defs)
  have h9: "unread (tty_in ?r) = drop (len (tty_out ?s)) (contents (tty_out (tx_msg ?s 0)))"
    by (simp only: conn_sender_wire_crc) (simp add: conn_receiver_def)
  have l0: "len (tty_out ?s) = 0" "bad_cs (dcnts ?r) = 0"
    by (simp_all add: conn_sender_def conn_receiver_def fixture_defs)
  have cs: "spec_checksum True ?B = [0x81, 0x62]"
    using spec_frame_crc_example by (simp add: spec_frame_def)
  note t = checksum_sent_and_checked[OF h1 h2 h3 h4 h5 h6 h7 h8 h9]
  from t have a: "drop 12 (contents (tty_out (tx_msg ?s 0))) = [0x81, 0x62]"
    by (simp add: uc l0 spec_crc16_example)
  from t have b: "cs_ok (rx_frame_done ?B [0x81, 0x62] ?r)"
    by (simp only: cs uc l0)
  from t[THEN conjunct2, THEN conjunct2, THEN conjunct2, THEN conjunct2]
  have c: "bad_cs (dcnts (parse_tty_data ?r)) = 0"
    by (simp only: l0)
  from a b c show ?thesis by (intro conjI)
qed

section \<open>The receiver's client pointer\<close>

text \<open>A connection in BCC mode whose only client, registered at address 5, has not
  drained its socket: 510 of the 512 bytes of its socket output buffer are in use. The
  peer's frame for address 5, payload 05 00 06 00 01 00 07 with its BCC 0xed, has
  just been read from the TTY.\<close>

definition conn_sink_full :: CONN where
  "conn_sink_full =
     (let c = conn_one_client False False;
          cl = clients c ! 0
      in c\<lparr>clients := [cl\<lparr>sock_out := (sock_out cl)\<lparr>len := 510\<rparr>\<rparr>],
           tty_in := buf_of [0x10, 0x02, 0x05, 0x00, 0x06, 0x00, 0x01, 0x00, 0x07, 0x10, 0x03, 0xed]
                       TTY_BUF_SIZE\<rparr>)"

lemma client_msg_rx_sink_full:
  assumes "find_addr c (data (app (rx c)) 0) = Some i"
    and "index (app (rx c)) = 0" and "0 < len (app (rx c))"
    and "len (sock_out (clients c ! i)) + len (app (rx c)) + 2 > maxsz (sock_out (clients c ! i))"
  shows "rx_state (rx (client_msg_rx c)) = RX_IDLE \<and> rx_client (rx (client_msg_rx c)) = Some i"
proof -
  let ?a = "app (rx c)"
  from assms(2,3) have g: "buf_get_byte ?a = Some (data ?a 0, ?a\<lparr>index := 1\<rparr>)"
    by (simp add: buf_get_byte_def)
  have fa: "find_addr (c\<lparr>rx := (rx c)\<lparr>app := ?a\<lparr>index := 1\<rparr>\<rparr>\<rparr>) (data ?a 0) = Some i"
    using assms(1) by (simp add: find_addr_def)
  show ?thesis
    using g fa assms(4)
    by (simp add: client_msg_rx_def Let_def rx_nak_def rx_set_nak_def)
qed

lemma rx_ack_leaves_pend:
  "rx_state (rx (rx_ack c)) = RX_IDLE \<and> rx_client (rx (rx_ack c)) = None"
  by (simp add: rx_ack_def Let_def)

lemma rx_nak_leaves_pend:
  "rx_state (rx (rx_nak c)) = RX_IDLE \<and> rx_client (rx (rx_nak c)) = None"
  by (simp add: rx_nak_def Let_def)

lemma conn_sink_full_received:
  "parse_tty_data conn_sink_full
     = accept_msg (rx_frame_done [0x05, 0x00, 0x06, 0x00, 0x01, 0x00, 0x07] [0xed] conn_sink_full)"
proof -
  have cs: "spec_checksum False [0x05, 0x00, 0x06, 0x00, 0x01, 0x00, 0x07] = [0xed]"
    by (simp add: spec_checksum_def spec_bcc_def)
  have a: "rx_state (rx conn_sink_full) = RX_IDLE" "\<not> read_sym conn_sink_full"
    "use_crc conn_sink_full = False"
    "length [0x05, 0x00, 0x06, 0x00, 0x01, 0x00, 0x07 :: u8] \<le> maxsz (app (rx conn_sink_full))"
    by (simp_all add: conn_sink_full_def fixture_defs Let_def)
  have u: "unread (tty_in conn_sink_full)
      = spec_frame (use_crc conn_sink_full) [0x05, 0x00, 0x06, 0x00, 0x01, 0x00, 0x07]"
    by (simp add: a(3) spec_frame_def cs) (simp add: conn_sink_full_def Let_def TTY_BUF_SIZE_def)
  from frame_received[OF a(1,2) u a(4)] show ?thesis by (simp add: a(3) cs)
qed

text \<open>The same connection with the client's socket buffer empty, when the receiver
  has assembled a payload of 511 bytes for address 5 (of the 512 that its buffer takes)
  together with its BCC 0xfb: with the two bytes that precede a message on the socket,
  the message is one byte too long for the client's buffer of 512.\<close>

definition conn_long_rx :: CONN where
  "conn_long_rx =
     (let c = with_app (0x05 # replicate 510 0) (conn_one_client False False)
      in c\<lparr>rx := (rx c)\<lparr>rx_state := RX_CS1, acc_cs_bcc := 0x05, msg_cs_bcc := 0xfb\<rparr>\<rparr>)"

lemma conn_long_rx_sink_full:
  "rx_state (rx (accept_msg conn_long_rx)) = RX_IDLE
   \<and> rx_client (rx (accept_msg conn_long_rx)) = Some 0"
proof -
  have a: "\<not> len (app (rx conn_long_rx)) < 6" "cs_ok conn_long_rx"
    "\<not> (dup_detect (rx conn_long_rx) \<and> fingerprint_match conn_long_rx)"
    by (simp_all add: conn_long_rx_def fixture_defs Let_def cs_ok_def)
  let ?c = "accepted conn_long_rx"
  have f: "find_addr ?c (data (app (rx ?c)) 0) = Some 0"
    by (simp add: accepted_def conn_long_rx_def fixture_defs Let_def find_addr_def)
  have b: "index (app (rx ?c)) = 0" "0 < len (app (rx ?c))"
    "len (sock_out (clients ?c ! 0)) + len (app (rx ?c)) + 2 > maxsz (sock_out (clients ?c ! 0))"
    by (simp_all add: accepted_def conn_long_rx_def fixture_defs Let_def)
  from client_msg_rx_sink_full[OF f b] show ?thesis
    by (simp add: accept_msg_deliver[OF a])
qed

text \<open>C4. The receiver's client pointer is not null exactly when the receiver is in state
  PEND. This fails on the branch of \<open>client_msg_rx\<close> taken when the client's socket
  buffer cannot hold the message: \<open>rx_nak\<close> puts the receiver in state IDLE and
  clears the pointer, and the statements after the test, which the branch does not skip, set
  the pointer again. On \<open>conn_sink_full\<close> the receiver starts idle with a null
  pointer and ends idle with the pointer at client 0, the message counted as dropped in
  \<open>sink_full\<close> and its first two bytes nevertheless appended to the socket
  buffer. On \<open>conn_long_rx\<close>, where the client's socket buffer is empty, a long
  message ends the same way.\<close>

theorem rx_client_set_while_idle:
  "rx_state (rx conn_sink_full) = RX_IDLE
   \<and> rx_client (rx conn_sink_full) = None
   \<and> rx_state (rx (parse_tty_data conn_sink_full)) = RX_IDLE
   \<and> rx_client (rx (parse_tty_data conn_sink_full)) = Some 0
   \<and> sink_full (cdcnts (clients (parse_tty_data conn_sink_full) ! 0)) = 1
   \<and> len (sock_out (clients conn_sink_full ! 0)) = 510
   \<and> len (sock_out (clients (parse_tty_data conn_sink_full) ! 0)) = 512
   \<and> rx_client (rx conn_long_rx) = None
   \<and> len (sock_out (clients conn_long_rx ! 0)) = 0
   \<and> rx_state (rx (accept_msg conn_long_rx)) = RX_IDLE
   \<and> rx_client (rx (accept_msg conn_long_rx)) = Some 0"
proof -
  have q: "rx_client (rx conn_long_rx) = None" "len (sock_out (clients conn_long_rx ! 0)) = 0"
    by (simp_all add: conn_long_rx_def fixture_defs Let_def)
  let ?d = "rx_frame_done [0x05, 0x00, 0x06, 0x00, 0x01, 0x00, 0x07] [0xed] conn_sink_full"
  have p1: "rx_state (rx conn_sink_full) = RX_IDLE" "rx_client (rx conn_sink_full) = None"
    "len (sock_out (clients conn_sink_full ! 0)) = 510"
    by (simp_all add: conn_sink_full_def fixture_defs Let_def)
  have p2: "rx_state (rx (accept_msg ?d)) = RX_IDLE"
    by (simp add: accept_msg_def cs_ok_def msg_dup_def client_msg_rx_def find_addr_def
        rx_nak_def rx_frame_done_def buf_get_byte_def buf_append_byte_def buf_append_buf_def
        append_sym_def conn_sink_full_def fixture_defs Let_def sum_of_def)
  have p3: "rx_client (rx (accept_msg ?d)) = Some 0"
    by (simp add: accept_msg_def cs_ok_def msg_dup_def client_msg_rx_def find_addr_def
        rx_nak_def rx_frame_done_def buf_get_byte_def buf_append_byte_def buf_append_buf_def
        append_sym_def conn_sink_full_def fixture_defs Let_def sum_of_def)
  have p4: "sink_full (cdcnts (clients (accept_msg ?d) ! 0)) = 1"
    by (simp add: accept_msg_def cs_ok_def msg_dup_def client_msg_rx_def find_addr_def
        rx_nak_def rx_frame_done_def buf_get_byte_def buf_append_byte_def buf_append_buf_def
        append_sym_def conn_sink_full_def fixture_defs Let_def sum_of_def)
  have p5: "len (sock_out (clients (accept_msg ?d) ! 0)) = 512"
    by (simp add: accept_msg_def cs_ok_def msg_dup_def client_msg_rx_def find_addr_def
        rx_nak_def rx_frame_done_def buf_get_byte_def buf_append_byte_def buf_append_buf_def
        append_sym_def conn_sink_full_def fixture_defs Let_def sum_of_def)
  from p1 p2 p3 p4 p5 q conn_long_rx_sink_full show ?thesis
    by (simp only: conn_sink_full_received)
qed

section \<open>What the arbitrator leaves alone\<close>

text \<open>Starting the next transmission only counts a transmission attempt among the
  connection's counters.\<close>

definition other_cnts :: "link_diag_cnt \<Rightarrow> link_diag_cnt" where
  "other_cnts d = d\<lparr>tx_attempts := 0\<rparr>"

lemma other_cnts_fields [simp]:
  "resp_timeouts (other_cnts d) = resp_timeouts d"
  "tx_fail (other_cnts d) = tx_fail d"
  "enqs_out (other_cnts d) = enqs_out d"
  "bytes_ignored (other_cnts d) = bytes_ignored d"
  "naks_out (other_cnts d) = naks_out d"
  by (simp_all add: other_cnts_def)

lemma dcnts_arbitrator:
  "other_cnts (dcnts (find_next_tx conn start_client)) = other_cnts (dcnts conn)"
  "other_cnts (dcnts (tx_msg conn client)) = other_cnts (dcnts conn)"
  "other_cnts (dcnts (send_msg conn)) = other_cnts (dcnts conn)"
  "other_cnts (dcnts (client_msg_tx_fail conn)) = other_cnts (dcnts conn)"
proof (induction conn start_client and conn client and conn and conn
       rule: find_next_tx_tx_msg_send_msg_client_msg_tx_fail.induct)
  case (1 conn start_client)
  then show ?case
    by (subst find_next_tx.simps) (simp add: Let_def split: option.splits)
next
  case (2 conn client)
  then show ?case
    by (subst tx_msg.simps) (simp add: Let_def other_cnts_def)
next
  case (3 conn)
  then show ?case
    by (subst send_msg.simps) (simp add: Let_def split: prod.splits bool.splits)
next
  case (4 conn)
  then show ?case
    by (subst client_msg_tx_fail.simps) (simp add: Let_def split: option.splits)
qed

lemma arbitrator_keeps:
  "resp_timeouts (dcnts (find_next_tx c s)) = resp_timeouts (dcnts c)"
  "tx_fail (dcnts (find_next_tx c s)) = tx_fail (dcnts c)"
  "enqs_out (dcnts (find_next_tx c s)) = enqs_out (dcnts c)"
  "bytes_ignored (dcnts (find_next_tx c s)) = bytes_ignored (dcnts c)"
  using arg_cong[OF dcnts_arbitrator(1)[of c s], of resp_timeouts]
    arg_cong[OF dcnts_arbitrator(1)[of c s], of tx_fail]
    arg_cong[OF dcnts_arbitrator(1)[of c s], of enqs_out]
    arg_cong[OF dcnts_arbitrator(1)[of c s], of bytes_ignored]
  by simp_all

text \<open>A client that has no message ready, and that the transmitter does not point to,
  is not touched: its socket buffer and its counters stay as they are.\<close>

lemma bystander_arbitrator:
  "cstate (clients conn ! i) \<noteq> CLIENT_MSG_READY \<Longrightarrow>
     length (clients (find_next_tx conn start_client)) = length (clients conn)
     \<and> cstate (clients (find_next_tx conn start_client) ! i) \<noteq> CLIENT_MSG_READY
     \<and> sock_out (clients (find_next_tx conn start_client) ! i) = sock_out (clients conn ! i)"
  "cstate (clients conn ! i) \<noteq> CLIENT_MSG_READY \<Longrightarrow> client \<noteq> i \<Longrightarrow>
     length (clients (tx_msg conn client)) = length (clients conn)
     \<and> cstate (clients (tx_msg conn client) ! i) \<noteq> CLIENT_MSG_READY
     \<and> sock_out (clients (tx_msg conn client) ! i) = sock_out (clients conn ! i)"
  "cstate (clients conn ! i) \<noteq> CLIENT_MSG_READY \<Longrightarrow> tx_client (tx conn) \<noteq> Some i \<Longrightarrow>
     length (clients (send_msg conn)) = length (clients conn)
     \<and> cstate (clients (send_msg conn) ! i) \<noteq> CLIENT_MSG_READY
     \<and> sock_out (clients (send_msg conn) ! i) = sock_out (clients conn ! i)"
  "cstate (clients conn ! i) \<noteq> CLIENT_MSG_READY \<Longrightarrow> tx_client (tx conn) \<noteq> Some i \<Longrightarrow>
     length (clients (client_msg_tx_fail conn)) = length (clients conn)
     \<and> cstate (clients (client_msg_tx_fail conn) ! i) \<noteq> CLIENT_MSG_READY
     \<and> sock_out (clients (client_msg_tx_fail conn) ! i) = sock_out (clients conn ! i)"
proof (induction conn start_client and conn client and conn and conn
       rule: find_next_tx_tx_msg_send_msg_client_msg_tx_fail.induct)
  case (1 conn start_client)
  show ?case
  proof (cases "tx_busy (tx conn) \<or> clients conn = []")
    case True
    with 1(2) show ?thesis by (subst (1 2 3) find_next_tx.simps) auto
  next
    case False
    show ?thesis
    proof (cases "next_ready (clients conn) (start_client_of conn start_client)")
      case None
      with False 1(2) show ?thesis by (subst (1 2 3) find_next_tx.simps) auto
    next
      case (Some j)
      from next_ready_Some[OF Some] 1(2) have ji: "j \<noteq> i" by auto
      from 1(1)[of j] False Some 1(2) ji
      have ih: "length (clients (tx_msg conn j)) = length (clients conn)
         \<and> cstate (clients (tx_msg conn j) ! i) \<noteq> CLIENT_MSG_READY
         \<and> sock_out (clients (tx_msg conn j) ! i) = sock_out (clients conn ! i)"
        by simp
      with False Some ji show ?thesis
        by (subst (1 2 3) find_next_tx.simps) (simp add: Let_def)
    qed
  qed
next
  case (2 conn client)
  let ?c1 = "conn\<lparr>clients := (clients conn)[client := (clients conn ! client)
                 \<lparr>df1_tx := fst (tx_msg_frame (use_crc conn) (df1_tx (clients conn ! client)) (msg (tx conn)))\<rparr>],
               tx := (tx conn)\<lparr>msg := fst (snd (tx_msg_frame (use_crc conn) (df1_tx (clients conn ! client)) (msg (tx conn)))),
                             tx_client := Some client\<rparr>\<rparr>"
  have "length (clients (send_msg ?c1)) = length (clients ?c1)
     \<and> cstate (clients (send_msg ?c1) ! i) \<noteq> CLIENT_MSG_READY
     \<and> sock_out (clients (send_msg ?c1) ! i) = sock_out (clients ?c1 ! i)"
    using 2(2,3) by (intro 2(1)) (simp_all add: Let_def)
  with 2(3) show ?case
    by (subst (1 2 3) tx_msg.simps) (simp add: Let_def)
next
  case (3 conn)
  show ?case
  proof (cases "fst (buf_append_buf (tty_out conn) (msg (tx conn)))")
    case True
    let ?c1 = "conn\<lparr>tx := flush_msg ((tx conn)\<lparr>tx_state := TX_PEND_MSG_TX\<rparr>)\<rparr>"
    have "length (clients (client_msg_tx_fail ?c1)) = length (clients ?c1)
     \<and> cstate (clients (client_msg_tx_fail ?c1) ! i) \<noteq> CLIENT_MSG_READY
     \<and> sock_out (clients (client_msg_tx_fail ?c1) ! i) = sock_out (clients ?c1 ! i)"
      using 3(1)[OF refl, of "fst (buf_append_buf (tty_out conn) (msg (tx conn)))"
          "snd (buf_append_buf (tty_out conn) (msg (tx conn)))"] 3(2,3) True
      by (simp add: prod_eq_iff flush_msg_def)
    with True show ?thesis
      by (subst (1 2 3) send_msg.simps)
         (simp add: Let_def prod.case_eq_if bool.case_eq_if flush_msg_def)
  next
    case False
    with 3(2) show ?thesis
      by (subst (1 2 3) send_msg.simps) (simp add: Let_def prod.case_eq_if bool.case_eq_if)
  qed
next
  case (4 conn)
  show ?case
  proof (cases "tx_client (tx conn)")
    case None
    from 4(1)[OF refl] None 4(2)
    show ?thesis by (subst (1 2 3) client_msg_tx_fail.simps) (simp add: Let_def)
  next
    case (Some c)
    with 4(3) have ci: "c \<noteq> i" by simp
    let ?c1 = "conn\<lparr>clients := (clients conn)
                 [c := (clients conn ! c)\<lparr>sock_out := snd (buf_append_byte (sock_out (clients conn ! c)) MSG_NAK),
                        cstate := CLIENT_IDLE,
                        cdcnts := (cdcnts (clients conn ! c))\<lparr>c_tx_fail := c_tx_fail (cdcnts (clients conn ! c)) + 1\<rparr>\<rparr>]\<rparr>"
    have "length (clients (find_next_tx ?c1 None)) = length (clients ?c1)
     \<and> cstate (clients (find_next_tx ?c1 None) ! i) \<noteq> CLIENT_MSG_READY
     \<and> sock_out (clients (find_next_tx ?c1 None) ! i) = sock_out (clients ?c1 ! i)"
      using 4(2) ci Some by (intro 4(1)) (simp_all add: Let_def)
    with Some ci show ?thesis
      by (subst (1 2 3) client_msg_tx_fail.simps) (simp add: Let_def)
  qed
qed

text \<open>\<open>tx_msg\<close> and \<open>find_next_tx\<close> when the TTY output buffer has room for the
  frame that \<open>tx_msg\<close> assembled.\<close>

definition tx_frame_of :: "CONN \<Rightarrow> nat \<Rightarrow> BUF" where
  "tx_frame_of conn client
     = fst (snd (tx_msg_frame (use_crc conn) (df1_tx (clients conn ! client)) (msg (tx conn))))"

lemma tx_msg_queued:
  assumes "len (tty_out s) + len (tx_frame_of s i) \<le> maxsz (tty_out s)"
  shows "tx_msg s i =
     s\<lparr>clients := (clients s)[i := (clients s ! i)
            \<lparr>df1_tx := fst (tx_msg_frame (use_crc s) (df1_tx (clients s ! i)) (msg (tx s)))\<rparr>],
       tx := (tx s)\<lparr>msg := tx_frame_of s i, tx_client := Some i, tx_state := TX_PEND_MSG_TX\<rparr>,
       tty_out := snd (buf_append_buf (tty_out s) (tx_frame_of s i)),
       dcnts := (dcnts s)\<lparr>tx_attempts := tx_attempts (dcnts s) + 1\<rparr>\<rparr>"
proof -
  from assms have r: "\<not> maxsz (tty_out s) < len (tty_out s) + len (tx_frame_of s i)" by simp
  then show ?thesis
    unfolding tx_frame_of_def
    by (subst tx_msg.simps, subst send_msg.simps)
       (simp add: Let_def prod.case_eq_if bool.case_eq_if fst_append_buf)
qed

lemma find_next_tx_starts:
  assumes "tx_state (tx s) = TX_IDLE"
    and "next_ready (clients s) (start_client_of s start) = Some i"
    and "len (tty_out s) + len (tx_frame_of s i) \<le> maxsz (tty_out s)"
  shows "find_next_tx s start =
     s\<lparr>clients := (clients s)[i := (clients s ! i)
            \<lparr>df1_tx := buf_empty (fst (tx_msg_frame (use_crc s) (df1_tx (clients s ! i)) (msg (tx s)))),
             cstate := CLIENT_MSG_PEND,
             cdcnts := (cdcnts (clients s ! i))
                         \<lparr>c_tx_attempts := c_tx_attempts (cdcnts (clients s ! i)) + 1\<rparr>\<rparr>],
       tx := (tx s)\<lparr>msg := tx_frame_of s i, tx_client := Some i, tx_state := TX_PEND_MSG_TX\<rparr>,
       tty_out := snd (buf_append_buf (tty_out s) (tx_frame_of s i)),
       dcnts := (dcnts s)\<lparr>tx_attempts := tx_attempts (dcnts s) + 1\<rparr>\<rparr>"
proof -
  from next_ready_Some[OF assms(2)] have il: "i < length (clients s)" by simp
  then have ne: "clients s \<noteq> []" by auto
  show ?thesis
    using assms(1,2) ne il
    by (subst find_next_tx.simps) (simp add: tx_msg_queued[OF assms(3)] tx_busy_def Let_def)
qed

lemma next_ready_None:
  "(\<And>j. j < length cs \<Longrightarrow> cstate (cs ! j) \<noteq> CLIENT_MSG_READY) \<Longrightarrow> next_ready cs s = None"
  by (auto simp: next_ready_def find_None_iff scan_order_def)

section \<open>ACK timeouts of the transmitter\<close>

text \<open>One ACK timeout as the event loop produces it: the TTY accepts every byte that
  is waiting in the output buffer (so \<open>tty_write\<close> calls \<open>tx_data_sent\<close>), and then
  the peer stays silent until the tick on which the elapsed ticks exceed \<open>tticks\<close>.\<close>

definition tty_drain :: "CONN \<Rightarrow> CONN" where
  "tty_drain c = snd (tty_write c (int (len (tty_out c) - index (tty_out c))))"

definition ack_timeout_round :: "CONN \<Rightarrow> CONN" where
  "ack_timeout_round c = (conn_tick ^^ (unat (tx_tticks (tx c)) + 1)) (tty_drain c)"

lemma tty_drain_sent:
  assumes "tx_state (tx c) = TX_PEND_MSG_TX" and "index (tty_out c) \<le> len (tty_out c)"
  shows "tty_drain c = c\<lparr>tty_out := buf_empty (tty_out c),
                          tx := (tx c)\<lparr>tx_state := TX_PEND_RESP, tx_eticks := 0\<rparr>\<rparr>"
  using assms
  by (simp add: tty_drain_def tty_write_def buf_write_def tx_data_sent_def Let_def buf_empty_def)

lemma conn_tick_waiting:
  assumes "tx_state (tx c) = TX_PEND_RESP" and "\<not> rx_active (rx c)"
    and "tx_eticks (tx c) = of_nat k" and "k < unat (tx_tticks (tx c))"
  shows "conn_tick c = c\<lparr>tx := (tx c)\<lparr>tx_eticks := of_nat (Suc k)\<rparr>\<rparr>"
proof -
  have "unat (tx_tticks (tx c)) < 2 ^ 32" using unsigned_less[of "tx_tticks (tx c)", where ?'a = nat] by simp
  with assms(4) have "unat (of_nat (Suc k) :: u32) = Suc k"
    by (simp add: unsigned_of_nat take_bit_nat_eq_self del: of_nat_Suc)
  with assms(4) have le: "\<not> (of_nat (Suc k) :: u32) > tx_tticks (tx c)"
    by (simp add: word_less_nat_alt del: of_nat_Suc)
  have s: "of_nat k + 1 = (of_nat (Suc k) :: u32)" by simp
  show ?thesis
    using assms(1,2,3) le
    by (simp add: conn_tick_def rx_tick_inactive tx_tick_def Let_def s del: of_nat_Suc)
qed

lemma conn_tick_iter:
  assumes "tx_state (tx c) = TX_PEND_RESP" and "\<not> rx_active (rx c)" and "tx_eticks (tx c) = 0"
  shows "n \<le> unat (tx_tticks (tx c))
         \<Longrightarrow> (conn_tick ^^ n) c = c\<lparr>tx := (tx c)\<lparr>tx_eticks := of_nat n\<rparr>\<rparr>"
proof (induction n)
  case 0
  with assms(3) show ?case by simp
next
  case (Suc n)
  let ?c = "c\<lparr>tx := (tx c)\<lparr>tx_eticks := of_nat n\<rparr>\<rparr>"
  from Suc have ih: "(conn_tick ^^ n) c = ?c" and n: "n < unat (tx_tticks (tx c))" by simp_all
  have "conn_tick ?c = ?c\<lparr>tx := (tx ?c)\<lparr>tx_eticks := of_nat (Suc n)\<rparr>\<rparr>"
    using assms(1,2) n by (intro conn_tick_waiting) simp_all
  with ih show ?case by (simp del: of_nat_Suc)
qed

text \<open>The tick on which the timer expires.\<close>

lemma conn_tick_timeout:
  assumes "tx_state (tx c) = TX_PEND_RESP" and "\<not> rx_active (rx c)"
    and "tx_eticks (tx c) = tx_tticks (tx c)" and "unat (tx_tticks (tx c)) < 2 ^ 32 - 1"
  shows "conn_tick c =
     (let c3 = c\<lparr>tx := (tx c)\<lparr>tx_eticks := tx_tticks (tx c) + 1, enq_cnt := enq_cnt (tx c) + 1\<rparr>,
                  dcnts := (dcnts c)\<lparr>resp_timeouts := resp_timeouts (dcnts c) + 1\<rparr>\<rparr>
      in if enq_cnt (tx c3) > max_enq (tx c3)
         then client_msg_tx_fail
                (c3\<lparr>tx := flush_msg (tx c3),
                    dcnts := (dcnts c3)\<lparr>tx_fail := tx_fail (dcnts c3) + 1\<rparr>\<rparr>)
         else send_enq c3)"
proof -
  have "unat (tx_tticks (tx c) + 1) = unat (tx_tticks (tx c)) + 1"
    using assms(4) by (simp add: unat_word_ariths)
  then have gt: "tx_tticks (tx c) + 1 > tx_tticks (tx c)"
    by (simp add: word_less_nat_alt)
  show ?thesis
    using assms(1,2,3) gt
    by (auto simp: conn_tick_def rx_tick_inactive tx_tick_def Let_def
        intro!: arg_cong[where f = send_enq] arg_cong[where f = client_msg_tx_fail])
qed

lemma ack_timeout_round_unfold:
  assumes "tx_state (tx c) = TX_PEND_MSG_TX" and "index (tty_out c) \<le> len (tty_out c)"
    and "\<not> rx_active (rx c)" and "unat (tx_tticks (tx c)) < 2 ^ 32 - 1"
  shows "ack_timeout_round c =
     (let c3 = c\<lparr>tty_out := buf_empty (tty_out c),
                  tx := (tx c)\<lparr>tx_state := TX_PEND_RESP, tx_eticks := tx_tticks (tx c) + 1,
                               enq_cnt := enq_cnt (tx c) + 1\<rparr>,
                  dcnts := (dcnts c)\<lparr>resp_timeouts := resp_timeouts (dcnts c) + 1\<rparr>\<rparr>
      in if enq_cnt (tx c3) > max_enq (tx c3)
         then client_msg_tx_fail
                (c3\<lparr>tx := flush_msg (tx c3),
                    dcnts := (dcnts c3)\<lparr>tx_fail := tx_fail (dcnts c3) + 1\<rparr>\<rparr>)
         else send_enq c3)"
proof -
  let ?d = "c\<lparr>tty_out := buf_empty (tty_out c),
              tx := (tx c)\<lparr>tx_state := TX_PEND_RESP, tx_eticks := 0\<rparr>\<rparr>"
  let ?e = "?d\<lparr>tx := (tx ?d)\<lparr>tx_eticks := of_nat (unat (tx_tticks (tx ?d)))\<rparr>\<rparr>"
  have d: "tty_drain c = ?d" by (rule tty_drain_sent[OF assms(1,2)])
  have i: "(conn_tick ^^ unat (tx_tticks (tx ?d))) ?d = ?e"
    using assms(3) by (intro conn_tick_iter) simp_all
  have "ack_timeout_round c = conn_tick ((conn_tick ^^ unat (tx_tticks (tx ?d))) ?d)"
    by (simp add: ack_timeout_round_def d)
  also have "\<dots> = conn_tick ?e" by (simp only: i)
  also have "\<dots> =
     (let c3 = ?e\<lparr>tx := (tx ?e)\<lparr>tx_eticks := tx_tticks (tx ?e) + 1, enq_cnt := enq_cnt (tx ?e) + 1\<rparr>,
                  dcnts := (dcnts ?e)\<lparr>resp_timeouts := resp_timeouts (dcnts ?e) + 1\<rparr>\<rparr>
      in if enq_cnt (tx c3) > max_enq (tx c3)
         then client_msg_tx_fail
                (c3\<lparr>tx := flush_msg (tx c3),
                    dcnts := (dcnts c3)\<lparr>tx_fail := tx_fail (dcnts c3) + 1\<rparr>\<rparr>)
         else send_enq c3)"
    using assms(3,4) by (intro conn_tick_timeout) simp_all
  finally show ?thesis
    by (auto simp: Let_def
        intro!: arg_cong[where f = send_enq] arg_cong[where f = client_msg_tx_fail])
qed

text \<open>A timeout that is answered with DLE ENQ, and the timeout that fails the message.\<close>

definition enq_sent :: "CONN \<Rightarrow> CONN" where
  "enq_sent c =
     c\<lparr>tty_out := append_bytes (buf_empty (tty_out c)) [SYM_DLE, SYM_ENQ],
       tx := (tx c)\<lparr>tx_state := TX_PEND_MSG_TX, tx_eticks := tx_tticks (tx c) + 1,
                    enq_cnt := enq_cnt (tx c) + 1\<rparr>,
       dcnts := (dcnts c)\<lparr>resp_timeouts := resp_timeouts (dcnts c) + 1\<rparr>\<rparr>"

definition msg_failed :: "CONN \<Rightarrow> nat \<Rightarrow> CONN" where
  "msg_failed c i =
     c\<lparr>tty_out := buf_empty (tty_out c),
       tx := flush_msg ((tx c)\<lparr>tx_eticks := tx_tticks (tx c) + 1\<rparr>),
       dcnts := (dcnts c)\<lparr>resp_timeouts := resp_timeouts (dcnts c) + 1,
                          tx_fail := tx_fail (dcnts c) + 1\<rparr>,
       clients := (clients c)[i := (clients c ! i)
          \<lparr>sock_out := snd (buf_append_byte (sock_out (clients c ! i)) MSG_NAK),
           cstate := CLIENT_IDLE,
           cdcnts := (cdcnts (clients c ! i))
                       \<lparr>c_tx_fail := c_tx_fail (cdcnts (clients c ! i)) + 1\<rparr>\<rparr>]\<rparr>"

lemma ack_timeout_round_enq:
  assumes "tx_state (tx c) = TX_PEND_MSG_TX" and "index (tty_out c) \<le> len (tty_out c)"
    and "\<not> rx_active (rx c)" and "unat (tx_tticks (tx c)) < 2 ^ 32 - 1"
    and "unat (enq_cnt (tx c)) < unat (max_enq (tx c))" and "2 \<le> maxsz (tty_out c)"
  shows "ack_timeout_round c = enq_sent c"
proof -
  have "unat (max_enq (tx c)) < 2 ^ 32"
    using unsigned_less[of "max_enq (tx c)", where ?'a = nat] by simp
  with assms(5) have "unat (enq_cnt (tx c) + 1) = unat (enq_cnt (tx c)) + 1"
    by (simp add: unat_word_ariths)
  with assms(5) have le: "\<not> enq_cnt (tx c) + 1 > max_enq (tx c)"
    by (simp add: word_less_nat_alt)
  have a: "append_sym (buf_empty (tty_out c)) SYM_ENQ
      = (False, append_bytes (buf_empty (tty_out c)) [SYM_DLE, SYM_ENQ])"
    using assms(6)
    by (simp add: append_sym_def buf_append_byte_def buf_empty_def append_bytes_def)
  show ?thesis
    unfolding ack_timeout_round_unfold[OF assms(1-4)] enq_sent_def
    using le by (simp add: Let_def send_enq_def a)
qed

lemma ack_timeout_round_fail:
  assumes "tx_state (tx c) = TX_PEND_MSG_TX" and "index (tty_out c) \<le> len (tty_out c)"
    and "\<not> rx_active (rx c)" and "unat (tx_tticks (tx c)) < 2 ^ 32 - 1"
    and "enq_cnt (tx c) = max_enq (tx c)" and "unat (max_enq (tx c)) < 2 ^ 32 - 1"
    and "tx_client (tx c) = Some i"
  shows "ack_timeout_round c = find_next_tx (msg_failed c i) None"
proof -
  have "unat (max_enq (tx c) + 1) = unat (max_enq (tx c)) + 1"
    using assms(6) by (simp add: unat_word_ariths)
  then have gt: "max_enq (tx c) + 1 > max_enq (tx c)"
    by (simp add: word_less_nat_alt)
  show ?thesis
    unfolding ack_timeout_round_unfold[OF assms(1-4)] msg_failed_def
    using gt assms(5,7)
    by (subst client_msg_tx_fail.simps)
       (auto simp: Let_def flush_msg_def intro!: arg_cong[where f = "\<lambda>x. find_next_tx x None"])
qed

lemma enq_sent_fields [simp]:
  "tx_state (tx (enq_sent c)) = TX_PEND_MSG_TX"
  "index (tty_out (enq_sent c)) = 0"
  "maxsz (tty_out (enq_sent c)) = maxsz (tty_out c)"
  "rx (enq_sent c) = rx c"
  "tx_tticks (tx (enq_sent c)) = tx_tticks (tx c)"
  "max_enq (tx (enq_sent c)) = max_enq (tx c)"
  "enq_cnt (tx (enq_sent c)) = enq_cnt (tx c) + 1"
  "tx_client (tx (enq_sent c)) = tx_client (tx c)"
  "clients (enq_sent c) = clients c"
  "resp_timeouts (dcnts (enq_sent c)) = resp_timeouts (dcnts c) + 1"
  "tx_fail (dcnts (enq_sent c)) = tx_fail (dcnts c)"
  "enqs_out (dcnts (enq_sent c)) = enqs_out (dcnts c)"
  by (simp_all add: enq_sent_def buf_empty_def)

lemma contents_buf_empty [simp]: "contents (buf_empty b) = []"
  by (simp add: contents_def buf_empty_def)

lemma maxsz_buf_empty [simp]: "maxsz (buf_empty b) = maxsz b"
  by (simp add: buf_empty_def)

lemma contents_enq_sent:
  assumes "2 \<le> maxsz (tty_out c)"
  shows "contents (tty_out (enq_sent c)) = [SYM_DLE, SYM_ENQ]"
proof -
  have "len (buf_empty (tty_out c)) \<le> maxsz (buf_empty (tty_out c))"
    by (simp add: buf_empty_def)
  from contents_append_bytes[OF this, of "[SYM_DLE, SYM_ENQ]"] assms show ?thesis
    by (simp add: enq_sent_def del: append_bytes_Cons)
qed

lemma msg_failed_fields:
  "resp_timeouts (dcnts (msg_failed c i)) = resp_timeouts (dcnts c) + 1"
  "tx_fail (dcnts (msg_failed c i)) = tx_fail (dcnts c) + 1"
  "enqs_out (dcnts (msg_failed c i)) = enqs_out (dcnts c)"
  "i < length (clients c) \<Longrightarrow> cstate (clients (msg_failed c i) ! i) = CLIENT_IDLE"
  "i < length (clients c) \<Longrightarrow>
     sock_out (clients (msg_failed c i) ! i) = snd (buf_append_byte (sock_out (clients c ! i)) MSG_NAK)"
  by (simp_all add: msg_failed_def)

text \<open>Three timeouts in a row, starting from a transmitter that has queued a message
  and has sent no ENQ for it yet.\<close>

lemma first_timeout:
  assumes "tx_state (tx c) = TX_PEND_MSG_TX" and "index (tty_out c) \<le> len (tty_out c)"
    and "\<not> rx_active (rx c)" and "unat (tx_tticks (tx c)) < 2 ^ 32 - 1"
    and "max_enq (tx c) = 2" and "enq_cnt (tx c) = 0" and "2 \<le> maxsz (tty_out c)"
  shows "ack_timeout_round c = enq_sent c"
  using assms by (intro ack_timeout_round_enq) simp_all

lemma second_timeout:
  assumes "tx_state (tx c) = TX_PEND_MSG_TX" and "index (tty_out c) \<le> len (tty_out c)"
    and "\<not> rx_active (rx c)" and "unat (tx_tticks (tx c)) < 2 ^ 32 - 1"
    and "max_enq (tx c) = 2" and "enq_cnt (tx c) = 0" and "2 \<le> maxsz (tty_out c)"
  shows "(ack_timeout_round ^^ 2) c = enq_sent (enq_sent c)"
proof -
  have "ack_timeout_round (enq_sent c) = enq_sent (enq_sent c)"
    using assms by (intro ack_timeout_round_enq) simp_all
  then show ?thesis by (simp add: numeral_2_eq_2 first_timeout[OF assms])
qed

lemma third_timeout:
  assumes "tx_state (tx c) = TX_PEND_MSG_TX" and "index (tty_out c) \<le> len (tty_out c)"
    and "\<not> rx_active (rx c)" and "unat (tx_tticks (tx c)) < 2 ^ 32 - 1"
    and "max_enq (tx c) = 2" and "enq_cnt (tx c) = 0" and "2 \<le> maxsz (tty_out c)"
    and "tx_client (tx c) = Some i"
  shows "(ack_timeout_round ^^ 3) c = find_next_tx (msg_failed (enq_sent (enq_sent c)) i) None"
proof -
  have "ack_timeout_round (enq_sent (enq_sent c))
      = find_next_tx (msg_failed (enq_sent (enq_sent c)) i) None"
    using assms by (intro ack_timeout_round_fail) simp_all
  then show ?thesis
    using second_timeout[OF assms(1-7)] by (simp add: numeral_3_eq_3 numeral_2_eq_2)
qed

text \<open>C5 (as amended). With \<open>max_enq = 2\<close> and a peer that never answers, the first and
  the second ACK timeout each put DLE ENQ (10 05) on the TTY and leave the message
  pending; writing the ENQ out restarts the timer. The message is failed by the third
  timeout: then \<open>resp_timeouts\<close> has grown by 3 and \<open>tx_fail\<close> by 1, and the
  originating client has one NAK byte (0x15) more in its socket buffer.\<close>

theorem two_enqs_then_fail:
  assumes "max_enq (tx c) = 2" and "enq_cnt (tx c) = 0"
    and "tx_state (tx c) = TX_PEND_MSG_TX"
    and "tx_client (tx c) = Some i" and "i < length (clients c)"
    and "index (tty_out c) \<le> len (tty_out c)" and "2 \<le> maxsz (tty_out c)"
    and "\<not> rx_active (rx c)" and "unat (tx_tticks (tx c)) < 2 ^ 32 - 1"
    and "len (sock_out (clients c ! i)) < maxsz (sock_out (clients c ! i))"
  shows "contents (tty_out (ack_timeout_round c)) = [0x10, 0x05]
       \<and> tx_state (tx (ack_timeout_round c)) = TX_PEND_MSG_TX
       \<and> tx_state (tx (tty_drain (ack_timeout_round c))) = TX_PEND_RESP
       \<and> tx_eticks (tx (tty_drain (ack_timeout_round c))) = 0
       \<and> resp_timeouts (dcnts (ack_timeout_round c)) = resp_timeouts (dcnts c) + 1
       \<and> contents (tty_out ((ack_timeout_round ^^ 2) c)) = [0x10, 0x05]
       \<and> tx_state (tx ((ack_timeout_round ^^ 2) c)) = TX_PEND_MSG_TX
       \<and> resp_timeouts (dcnts ((ack_timeout_round ^^ 2) c)) = resp_timeouts (dcnts c) + 2
       \<and> tx_fail (dcnts ((ack_timeout_round ^^ 2) c)) = tx_fail (dcnts c)
       \<and> sock_out (clients ((ack_timeout_round ^^ 2) c) ! i) = sock_out (clients c ! i)
       \<and> resp_timeouts (dcnts ((ack_timeout_round ^^ 3) c)) = resp_timeouts (dcnts c) + 3
       \<and> tx_fail (dcnts ((ack_timeout_round ^^ 3) c)) = tx_fail (dcnts c) + 1
       \<and> contents (sock_out (clients ((ack_timeout_round ^^ 3) c) ! i))
           = contents (sock_out (clients c ! i)) @ [0x15]"
proof -
  note pre = assms(3,6,8,9,1,2,7)
  note r1 = first_timeout[OF pre]
  note r2 = second_timeout[OF pre]
  note r3 = third_timeout[OF pre assms(4)]
  let ?f = "msg_failed (enq_sent (enq_sent c)) i"
  have a1: "contents (tty_out (ack_timeout_round c)) = [0x10, 0x05]"
    using contents_enq_sent[OF assms(7)] by (simp add: r1 sym_defs)
  have a2: "tx_state (tx (ack_timeout_round c)) = TX_PEND_MSG_TX" by (simp add: r1)
  have d: "tty_drain (enq_sent c)
      = (enq_sent c)\<lparr>tty_out := buf_empty (tty_out (enq_sent c)),
                     tx := (tx (enq_sent c))\<lparr>tx_state := TX_PEND_RESP, tx_eticks := 0\<rparr>\<rparr>"
    by (rule tty_drain_sent) simp_all
  have a3: "tx_state (tx (tty_drain (ack_timeout_round c))) = TX_PEND_RESP"
    and a4: "tx_eticks (tx (tty_drain (ack_timeout_round c))) = 0"
    by (simp_all add: r1 d)
  have a5: "resp_timeouts (dcnts (ack_timeout_round c)) = resp_timeouts (dcnts c) + 1"
    by (simp add: r1)
  have b1: "contents (tty_out ((ack_timeout_round ^^ 2) c)) = [0x10, 0x05]"
    using contents_enq_sent[of "enq_sent c"] assms(7) by (simp add: r2 sym_defs)
  have b2: "tx_state (tx ((ack_timeout_round ^^ 2) c)) = TX_PEND_MSG_TX"
    and b3: "resp_timeouts (dcnts ((ack_timeout_round ^^ 2) c)) = resp_timeouts (dcnts c) + 2"
    and b4: "tx_fail (dcnts ((ack_timeout_round ^^ 2) c)) = tx_fail (dcnts c)"
    and b5: "sock_out (clients ((ack_timeout_round ^^ 2) c) ! i) = sock_out (clients c ! i)"
    by (simp_all add: r2)
  have c1: "resp_timeouts (dcnts ((ack_timeout_round ^^ 3) c)) = resp_timeouts (dcnts c) + 3"
    and c2: "tx_fail (dcnts ((ack_timeout_round ^^ 3) c)) = tx_fail (dcnts c) + 1"
    by (simp_all add: r3 arbitrator_keeps msg_failed_fields)
  have il: "i < length (clients (enq_sent (enq_sent c)))" using assms(5) by simp
  have "cstate (clients ?f ! i) \<noteq> CLIENT_MSG_READY"
    by (simp add: msg_failed_fields(4)[OF il])
  from bystander_arbitrator(1)[OF this, of None]
  have "sock_out (clients ((ack_timeout_round ^^ 3) c) ! i) = sock_out (clients ?f ! i)"
    by (simp add: r3)
  also have "\<dots> = snd (buf_append_byte (sock_out (clients c ! i)) MSG_NAK)"
    by (simp add: msg_failed_fields(5)[OF il])
  finally have c4: "contents (sock_out (clients ((ack_timeout_round ^^ 3) c) ! i))
           = contents (sock_out (clients c ! i)) @ [0x15]"
    using assms(10) by (simp add: contents_append_byte MSG_NAK_def)
  from a1 a2 a3 a4 a5 b1 b2 b3 b4 b5 c1 c2 c4 show ?thesis by (intro conjI)
qed

text \<open>A connection in BCC mode set up with \<open>max_enq = 2\<close> and an ACK timeout of
  200 ms, whose only client, at address 5, has the message 05 00 06 00 01 00 07 ready;
  the arbitrator has started its transmission.\<close>

definition conn_msg_ready :: CONN where
  "conn_msg_ready =
     (conn_init (\<lambda>_. 0) False 3 2 False 200)
       \<lparr>clients := [(client_registered (\<lambda>_. 0) 5)
                      \<lparr>df1_tx := buf_of [0x05, 0x00, 0x06, 0x00, 0x01, 0x00, 0x07] CLIENT_BUF_SIZE,
                       cstate := CLIENT_MSG_READY\<rparr>]\<rparr>"

definition conn_silent_peer :: CONN where
  "conn_silent_peer = find_next_tx conn_msg_ready None"

lemma index_append_buf [simp]: "index (snd (buf_append_buf d s)) = index d"
  by (simp add: buf_append_buf_def Let_def)

lemma maxsz_append_buf [simp]: "maxsz (snd (buf_append_buf d s)) = maxsz d"
  by (simp add: buf_append_buf_def Let_def)

lemma conn_msg_ready_frame:
  "contents (tx_frame_of conn_msg_ready 0)
     = [0x10, 0x02, 0x05, 0x00, 0x06, 0x00, 0x01, 0x00, 0x07, 0x10, 0x03, 0xed]"
  "len (tx_frame_of conn_msg_ready 0) = 12"
proof -
  let ?s = conn_msg_ready
  have u: "unread (df1_tx (clients ?s ! 0)) = [0x05, 0x00, 0x06, 0x00, 0x01, 0x00, 0x07]"
    by (simp add: conn_msg_ready_def)
  have f: "spec_frame False [0x05, 0x00, 0x06, 0x00, 0x01, 0x00, 0x07]
     = [0x10, 0x02, 0x05, 0x00, 0x06, 0x00, 0x01, 0x00, 0x07, 0x10, 0x03, 0xed]"
    by (simp add: spec_frame_def spec_checksum_def spec_bcc_def)
  have b: "use_crc ?s = False" "len (msg (tx ?s)) = 0" "maxsz (msg (tx ?s)) = 512"
    by (simp_all add: conn_msg_ready_def fixture_defs)
  have "contents (tx_frame_of ?s 0) = spec_frame (use_crc ?s) (unread (df1_tx (clients ?s ! 0)))"
    unfolding tx_frame_of_def by (rule tx_msg_frame_fits(1)) (simp_all add: b u f)
  then show "contents (tx_frame_of ?s 0)
     = [0x10, 0x02, 0x05, 0x00, 0x06, 0x00, 0x01, 0x00, 0x07, 0x10, 0x03, 0xed]"
    by (simp add: b u f)
  have "len (tx_frame_of ?s 0) = length (spec_frame (use_crc ?s) (unread (df1_tx (clients ?s ! 0))))"
    unfolding tx_frame_of_def by (rule tx_msg_frame_fits(3)) (simp_all add: b u f)
  then show "len (tx_frame_of ?s 0) = 12" by (simp add: b u f)
qed

lemma conn_silent_peer_eq:
  "conn_silent_peer =
     conn_msg_ready
       \<lparr>clients := (clients conn_msg_ready)[0 := (clients conn_msg_ready ! 0)
            \<lparr>df1_tx := buf_empty (fst (tx_msg_frame (use_crc conn_msg_ready)
                         (df1_tx (clients conn_msg_ready ! 0)) (msg (tx conn_msg_ready)))),
             cstate := CLIENT_MSG_PEND,
             cdcnts := (cdcnts (clients conn_msg_ready ! 0))
                \<lparr>c_tx_attempts := c_tx_attempts (cdcnts (clients conn_msg_ready ! 0)) + 1\<rparr>\<rparr>],
        tx := (tx conn_msg_ready)\<lparr>msg := tx_frame_of conn_msg_ready 0, tx_client := Some 0,
                                   tx_state := TX_PEND_MSG_TX\<rparr>,
        tty_out := snd (buf_append_buf (tty_out conn_msg_ready) (tx_frame_of conn_msg_ready 0)),
        dcnts := (dcnts conn_msg_ready)\<lparr>tx_attempts := tx_attempts (dcnts conn_msg_ready) + 1\<rparr>\<rparr>"
proof -
  let ?s = conn_msg_ready
  have b: "len (tty_out ?s) = 0" "maxsz (tty_out ?s) = 512" "tx_state (tx ?s) = TX_IDLE"
    by (simp_all add: conn_msg_ready_def fixture_defs)
  have n: "next_ready (clients ?s) (start_client_of ?s None) = Some 0"
    by (simp add: conn_msg_ready_def fixture_defs next_ready_def scan_order_def start_client_of_def)
  have r: "len (tty_out ?s) + len (tx_frame_of ?s 0) \<le> maxsz (tty_out ?s)"
    by (simp add: conn_msg_ready_frame b)
  show ?thesis unfolding conn_silent_peer_def by (rule find_next_tx_starts[OF b(3) n r])
qed

lemma conn_silent_peer_state:
  "max_enq (tx conn_silent_peer) = 2" "enq_cnt (tx conn_silent_peer) = 0"
  "tx_state (tx conn_silent_peer) = TX_PEND_MSG_TX"
  "tx_client (tx conn_silent_peer) = Some 0" "0 < length (clients conn_silent_peer)"
  "index (tty_out conn_silent_peer) \<le> len (tty_out conn_silent_peer)"
  "2 \<le> maxsz (tty_out conn_silent_peer)"
  "\<not> rx_active (rx conn_silent_peer)" "unat (tx_tticks (tx conn_silent_peer)) < 2 ^ 32 - 1"
  "len (sock_out (clients conn_silent_peer ! 0)) < maxsz (sock_out (clients conn_silent_peer ! 0))"
  "contents (sock_out (clients conn_silent_peer ! 0)) = []"
  "resp_timeouts (dcnts conn_silent_peer) = 0" "tx_fail (dcnts conn_silent_peer) = 0"
  "enqs_out (dcnts conn_silent_peer) = 0"
proof -
  note e = conn_silent_peer_eq
  have b: "index (tty_out conn_msg_ready) = 0" "maxsz (tty_out conn_msg_ready) = 512"
    by (simp_all add: conn_msg_ready_def fixture_defs)
  show "max_enq (tx conn_silent_peer) = 2" "enq_cnt (tx conn_silent_peer) = 0"
    "tx_state (tx conn_silent_peer) = TX_PEND_MSG_TX"
    "tx_client (tx conn_silent_peer) = Some 0" "0 < length (clients conn_silent_peer)"
    "\<not> rx_active (rx conn_silent_peer)" "unat (tx_tticks (tx conn_silent_peer)) < 2 ^ 32 - 1"
    "resp_timeouts (dcnts conn_silent_peer) = 0" "tx_fail (dcnts conn_silent_peer) = 0"
    "enqs_out (dcnts conn_silent_peer) = 0"
    unfolding e
    by (simp_all add: conn_msg_ready_def fixture_defs rx_active_def)
  show "index (tty_out conn_silent_peer) \<le> len (tty_out conn_silent_peer)"
    "2 \<le> maxsz (tty_out conn_silent_peer)"
    unfolding e by (simp_all add: b)
  show "len (sock_out (clients conn_silent_peer ! 0)) < maxsz (sock_out (clients conn_silent_peer ! 0))"
    "contents (sock_out (clients conn_silent_peer ! 0)) = []"
    unfolding e
    by (simp_all add: conn_msg_ready_def fixture_defs contents_def)
qed

theorem two_enqs_then_fail_witness:
  "resp_timeouts (dcnts ((ack_timeout_round ^^ 3) conn_silent_peer)) = 3
   \<and> tx_fail (dcnts ((ack_timeout_round ^^ 3) conn_silent_peer)) = 1
   \<and> contents (sock_out (clients ((ack_timeout_round ^^ 3) conn_silent_peer) ! 0)) = [0x15]"
  using two_enqs_then_fail[OF conn_silent_peer_state(1-10)]
  by (simp add: conn_silent_peer_state(11-14))

text \<open>After the second timeout the message has not failed: the transmitter has sent
  its second ENQ and still waits, and the client has been told nothing.\<close>

theorem second_timeout_sends_enq_counterexample:
  "max_enq (tx conn_silent_peer) = 2
   \<and> resp_timeouts (dcnts ((ack_timeout_round ^^ 2) conn_silent_peer)) = 2
   \<and> tx_fail (dcnts ((ack_timeout_round ^^ 2) conn_silent_peer)) = 0
   \<and> tx_state (tx ((ack_timeout_round ^^ 2) conn_silent_peer)) = TX_PEND_MSG_TX
   \<and> contents (tty_out ((ack_timeout_round ^^ 2) conn_silent_peer)) = [0x10, 0x05]
   \<and> contents (sock_out (clients ((ack_timeout_round ^^ 2) conn_silent_peer) ! 0)) = []"
proof -
  note s = conn_silent_peer_state
  note r2 = second_timeout[OF s(3,6,8,9,1,2,7)]
  have "contents (tty_out (enq_sent (enq_sent conn_silent_peer))) = [0x10, 0x05]"
    using contents_enq_sent[of "enq_sent conn_silent_peer"] s(7) by (simp add: sym_defs)
  then show ?thesis by (simp add: r2 s)
qed

section \<open>NAK from the peer\<close>












section \<open>A frame that does not fit the transmitter's buffer\<close>

text \<open>When the frame is longer than the buffer, every append from the first one that
  finds the buffer full fails and leaves the buffer as it is: the buffer ends up with
  the leading bytes of DLE STX, stuffed payload, DLE ETX, without a checksum.\<close>

lemma tx_msg_frame_overflow:
  assumes e: "len m = 0" and ov: "maxsz m < length (spec_frame crc_mode (unread df1))"
  shows "contents (fst (snd (tx_msg_frame crc_mode df1 m)))
           = take (maxsz m) ([0x10, 0x02] @ spec_stuff (unread df1) @ [0x10, 0x03])"
    and "snd (snd (tx_msg_frame crc_mode df1 m))"
proof -
  let ?B = "unread df1"
  define pre where "pre = [SYM_DLE, SYM_STX] @ spec_stuff ?B @ [SYM_DLE, SYM_ETX]"
  define m5 where "m5 = append_bytes m pre"
  have l: "len m \<le> maxsz m" using e by simp
  have c0: "contents m = []" using e by (simp add: contents_def)
  from ov have p: "maxsz m < length pre + (if crc_mode then 2 else 1)"
    by (auto simp: length_spec_frame pre_def split: if_splits)
  have c5: "contents m5 = take (maxsz m) pre"
    unfolding m5_def using contents_append_bytes[OF l, of pre] c0 by simp
  have l5: "len m5 = min (maxsz m) (length pre)"
    unfolding m5_def using len_append_bytes[OF l, of pre] e by simp
  have mx: "maxsz m5 = maxsz m" by (simp add: m5_def)
  have m6: "fst (snd (tx_msg_frame crc_mode df1 m)) =
      (if crc_mode then snd (buf_append_word m5 (crc_of (?B @ [SYM_ETX])))
       else snd (buf_append_byte m5 (NOT (sum_of ?B) + 1)))"
    unfolding m5_def pre_def by (simp only: tx_msg_frame_spec[OF l] Let_def fst_conv snd_conv)
  have "fst (snd (tx_msg_frame crc_mode df1 m)) = m5"
  proof (cases crc_mode)
    case True
    with p l5 mx have "maxsz m5 < len m5 + 2" by (simp add: min_def)
    with True show ?thesis unfolding m6 by (simp add: buf_append_word_def Let_def)
  next
    case False
    with p l5 mx have "len m5 = maxsz m5" by (simp add: min_def)
    with False show ?thesis unfolding m6 by (simp add: buf_append_byte_def)
  qed
  then show "contents (fst (snd (tx_msg_frame crc_mode df1 m)))
           = take (maxsz m) ([0x10, 0x02] @ spec_stuff (unread df1) @ [0x10, 0x03])"
    by (simp add: c5 pre_def sym_defs)
  show "snd (snd (tx_msg_frame crc_mode df1 m))"
    using ov e by (simp add: tx_msg_frame_spec[OF l])
qed

text \<open>\<open>tx_msg\<close> when the TTY output buffer cannot take the frame: \<open>send_msg\<close> flushes
  the transmitter and \<open>client_msg_tx_fail\<close> notifies the client.\<close>

lemma tx_msg_tty_full:
  assumes "maxsz (tty_out s) < len (tty_out s) + len (tx_frame_of s i)"
    and "i < length (clients s)"
  shows "sock_out (clients (tx_msg s i) ! i)
           = snd (buf_append_byte (sock_out (clients s ! i)) MSG_NAK)"
proof -
  let ?fr = "tx_msg_frame (use_crc s) (df1_tx (clients s ! i)) (msg (tx s))"
  let ?c1 = "s\<lparr>clients := (clients s)[i := (clients s ! i)\<lparr>df1_tx := fst ?fr\<rparr>],
              tx := flush_msg ((tx s)\<lparr>msg := fst (snd ?fr), tx_client := Some i,
                                      tx_state := TX_PEND_MSG_TX\<rparr>)\<rparr>"
  let ?cl = "clients ?c1 ! i"
  let ?X = "?c1\<lparr>clients := (clients ?c1)
               [i := ?cl\<lparr>sock_out := snd (buf_append_byte (sock_out ?cl) MSG_NAK),
                         cstate := CLIENT_IDLE,
                         cdcnts := (cdcnts ?cl)\<lparr>c_tx_fail := c_tx_fail (cdcnts ?cl) + 1\<rparr>\<rparr>]\<rparr>"
  have t: "clients (tx_msg s i) = clients (find_next_tx ?X None)"
    using assms(1) unfolding tx_frame_of_def
    by (subst tx_msg.simps, subst send_msg.simps, subst client_msg_tx_fail.simps)
       (simp add: Let_def prod.case_eq_if bool.case_eq_if fst_append_buf flush_msg_def)
  have "cstate (clients ?X ! i) \<noteq> CLIENT_MSG_READY" using assms(2) by simp
  from bystander_arbitrator(1)[OF this, of None]
  have "sock_out (clients (find_next_tx ?X None) ! i) = sock_out (clients ?X ! i)" by simp
  also have "\<dots> = snd (buf_append_byte (sock_out (clients s ! i)) MSG_NAK)"
    using assms(2) by simp
  finally show ?thesis by (simp add: t)
qed

text \<open>C9. Let the frame for the message of client \<open>i\<close> be longer than the
  transmitter's (empty) buffer, and let \<open>T\<close> be what the buffer can take of DLE STX,
  stuffed payload, DLE ETX. If the TTY output buffer has room for \<open>T\<close>, then
  \<open>tx_msg\<close> records client \<open>i\<close>, appends \<open>T\<close>, a proper prefix of the frame, to
  the TTY output, enters PEND_MSG_TX and counts a transmission attempt, and no client's
  socket buffer changes. If the TTY output buffer has no room for \<open>T\<close>, the
  client gets one NAK byte (0x15) in its socket buffer.\<close>

theorem tx_msg_overflow_still_sent:
  assumes "len (msg (tx s)) = 0"
    and "maxsz (msg (tx s)) < length (spec_frame (use_crc s) (unread (df1_tx (clients s ! i))))"
    and "i < length (clients s)"
    and "T = take (maxsz (msg (tx s)))
               ([0x10, 0x02] @ spec_stuff (unread (df1_tx (clients s ! i))) @ [0x10, 0x03])"
  shows "(len (tty_out s) + length T \<le> maxsz (tty_out s) \<longrightarrow>
            tx_client (tx (tx_msg s i)) = Some i
          \<and> contents (msg (tx (tx_msg s i))) = T
          \<and> contents (tty_out (tx_msg s i)) = contents (tty_out s) @ T
          \<and> strict_prefix T (spec_frame (use_crc s) (unread (df1_tx (clients s ! i))))
          \<and> tx_state (tx (tx_msg s i)) = TX_PEND_MSG_TX
          \<and> tx_attempts (dcnts (tx_msg s i)) = tx_attempts (dcnts s) + 1
          \<and> map sock_out (clients (tx_msg s i)) = map sock_out (clients s))
       \<and> (maxsz (tty_out s) < len (tty_out s) + length T
            \<and> len (sock_out (clients s ! i)) < maxsz (sock_out (clients s ! i)) \<longrightarrow>
            contents (sock_out (clients (tx_msg s i) ! i))
              = contents (sock_out (clients s ! i)) @ [0x15])"
proof (intro conjI impI)
  let ?B = "unread (df1_tx (clients s ! i))"
  have c: "contents (tx_frame_of s i) = T"
    unfolding tx_frame_of_def assms(4) by (rule tx_msg_frame_overflow(1)[OF assms(1,2)])
  then have l: "len (tx_frame_of s i) = length T"
    using length_contents[of "tx_frame_of s i"] by simp
  {
    assume "len (tty_out s) + length T \<le> maxsz (tty_out s)"
    then have r: "len (tty_out s) + len (tx_frame_of s i) \<le> maxsz (tty_out s)" by (simp add: l)
    note q = tx_msg_queued[OF r]
    show "tx_client (tx (tx_msg s i)) = Some i" by (simp add: q)
    show "contents (msg (tx (tx_msg s i))) = T" by (simp add: q c)
    show "contents (tty_out (tx_msg s i)) = contents (tty_out s) @ T"
      using contents_append_buf[OF r] by (simp add: q c)
    show "tx_state (tx (tx_msg s i)) = TX_PEND_MSG_TX" by (simp add: q)
    show "tx_attempts (dcnts (tx_msg s i)) = tx_attempts (dcnts s) + 1" by (simp add: q)
    show "map sock_out (clients (tx_msg s i)) = map sock_out (clients s)"
      using assms(3) by (simp add: q map_update list_update_same_conv)
    have "prefix ([0x10, 0x02] @ spec_stuff ?B @ [0x10, 0x03]) (spec_frame (use_crc s) ?B)"
      by (rule prefixI[where zs = "spec_checksum (use_crc s) ?B"]) (simp add: spec_frame_def)
    with take_is_prefix[of "maxsz (msg (tx s))" "[0x10, 0x02] @ spec_stuff ?B @ [0x10, 0x03]"]
    have "prefix T (spec_frame (use_crc s) ?B)"
      unfolding assms(4) by (rule prefix_order.order_trans)
    moreover have "length T < length (spec_frame (use_crc s) ?B)"
      using assms(2) by (simp add: assms(4))
    ultimately show "strict_prefix T (spec_frame (use_crc s) ?B)"
      by (auto simp: strict_prefix_def)
  }
  {
    assume a: "maxsz (tty_out s) < len (tty_out s) + length T
            \<and> len (sock_out (clients s ! i)) < maxsz (sock_out (clients s ! i))"
    then have "maxsz (tty_out s) < len (tty_out s) + len (tx_frame_of s i)" by (simp add: l)
    from tx_msg_tty_full[OF this assms(3)] a
    show "contents (sock_out (clients (tx_msg s i) ! i))
              = contents (sock_out (clients s ! i)) @ [0x15]"
      by (simp add: contents_append_byte MSG_NAK_def)
  }
qed

text \<open>A client whose message, address byte 5 followed by 509 zero bytes, makes a frame
  of 515 bytes; once with an empty TTY output buffer and once with a DLE ACK still
  waiting in it.\<close>

definition conn_long_msg :: CONN where
  "conn_long_msg =
     (conn_one_client False False)
       \<lparr>clients := [(client_registered (\<lambda>_. 0) 5)
                      \<lparr>df1_tx := buf_of (0x05 # replicate 509 0) CLIENT_BUF_SIZE,
                       cstate := CLIENT_MSG_READY\<rparr>]\<rparr>"

definition conn_long_msg_busy :: CONN where
  "conn_long_msg_busy = conn_long_msg\<lparr>tty_out := buf_of [0x10, 0x06] TTY_BUF_SIZE\<rparr>"

lemma spec_stuff_zeros: "spec_stuff (replicate n 0) = replicate n 0"
  by (induction n) simp_all

theorem tx_msg_overflow_still_sent_witness:
  "contents (tty_out (tx_msg conn_long_msg 0)) = [0x10, 0x02, 0x05] @ replicate 509 0
   \<and> tx_client (tx (tx_msg conn_long_msg 0)) = Some 0
   \<and> tx_state (tx (tx_msg conn_long_msg 0)) = TX_PEND_MSG_TX
   \<and> tx_attempts (dcnts (tx_msg conn_long_msg 0)) = 1
   \<and> map (\<lambda>c. contents (sock_out c)) (clients (tx_msg conn_long_msg 0)) = [[]]
   \<and> contents (sock_out (clients (tx_msg conn_long_msg_busy 0) ! 0)) = [0x15]"
proof -
  let ?B = "0x05 # replicate 509 (0 :: u8)"
  let ?T = "[0x10, 0x02, 0x05] @ replicate 509 (0 :: u8)"
  have u: "unread (df1_tx (clients conn_long_msg ! 0)) = ?B"
    "unread (df1_tx (clients conn_long_msg_busy ! 0)) = ?B"
    by (simp_all add: conn_long_msg_def conn_long_msg_busy_def)
  have st: "spec_stuff ?B = ?B" by (simp add: spec_stuff_zeros)
  have b: "len (msg (tx conn_long_msg)) = 0" "maxsz (msg (tx conn_long_msg)) = 512"
    "use_crc conn_long_msg = False" "0 < length (clients conn_long_msg)"
    "len (tty_out conn_long_msg) = 0" "maxsz (tty_out conn_long_msg) = 512"
    "contents (tty_out conn_long_msg) = []" "tx_attempts (dcnts conn_long_msg) = 0"
    "map (\<lambda>c. contents (sock_out c)) (clients conn_long_msg) = [[]]"
    by (simp_all add: conn_long_msg_def fixture_defs contents_def)
  have b': "len (msg (tx conn_long_msg_busy)) = 0" "maxsz (msg (tx conn_long_msg_busy)) = 512"
    "use_crc conn_long_msg_busy = False" "0 < length (clients conn_long_msg_busy)"
    "len (tty_out conn_long_msg_busy) = 2" "maxsz (tty_out conn_long_msg_busy) = 512"
    "len (sock_out (clients conn_long_msg_busy ! 0)) = 0"
    "maxsz (sock_out (clients conn_long_msg_busy ! 0)) = 512"
    "contents (sock_out (clients conn_long_msg_busy ! 0)) = []"
    by (simp_all add: conn_long_msg_busy_def conn_long_msg_def fixture_defs contents_def)
  have t: "?T = take 512 ([0x10, 0x02] @ spec_stuff ?B @ [0x10, 0x03])"
    by (simp only: st; simp)
  have lt: "length ?T = 512" by simp
  have h2: "maxsz (msg (tx conn_long_msg))
      < length (spec_frame (use_crc conn_long_msg) (unread (df1_tx (clients conn_long_msg ! 0))))"
    by (simp only: u b length_spec_frame st; simp)
  have h2': "maxsz (msg (tx conn_long_msg_busy))
      < length (spec_frame (use_crc conn_long_msg_busy)
                 (unread (df1_tx (clients conn_long_msg_busy ! 0))))"
    by (simp only: u b' length_spec_frame st; simp)
  have h4: "?T = take (maxsz (msg (tx conn_long_msg)))
               ([0x10, 0x02] @ spec_stuff (unread (df1_tx (clients conn_long_msg ! 0))) @ [0x10, 0x03])"
    by (simp only: u b t)
  have h4': "?T = take (maxsz (msg (tx conn_long_msg_busy)))
               ([0x10, 0x02] @ spec_stuff (unread (df1_tx (clients conn_long_msg_busy ! 0)))
                @ [0x10, 0x03])"
    by (simp only: u b' t)
  have r: "len (tty_out conn_long_msg) + length ?T \<le> maxsz (tty_out conn_long_msg)"
    by (simp only: b lt; simp)
  have r': "maxsz (tty_out conn_long_msg_busy) < len (tty_out conn_long_msg_busy) + length ?T
      \<and> len (sock_out (clients conn_long_msg_busy ! 0))
          < maxsz (sock_out (clients conn_long_msg_busy ! 0))"
    by (simp only: b' lt; simp)
  note p = tx_msg_overflow_still_sent[OF b(1) h2 b(4) h4, THEN conjunct1, rule_format, OF r]
  note q = tx_msg_overflow_still_sent[OF b'(1) h2' b'(4) h4', THEN conjunct2, rule_format, OF r']
  from p have p1: "contents (tty_out (tx_msg conn_long_msg 0)) = ?T"
    by (simp only: b append_Nil)
  from p have p2: "tx_client (tx (tx_msg conn_long_msg 0)) = Some 0"
    and p3: "tx_state (tx (tx_msg conn_long_msg 0)) = TX_PEND_MSG_TX" by blast+
  from p have p4: "tx_attempts (dcnts (tx_msg conn_long_msg 0)) = 1"
    by (simp only: b; simp)
  from p have "map sock_out (clients (tx_msg conn_long_msg 0)) = map sock_out (clients conn_long_msg)"
    by blast
  from arg_cong[OF this, of "map contents"]
  have p5: "map (\<lambda>c. contents (sock_out c)) (clients (tx_msg conn_long_msg 0)) = [[]]"
    using b(9) by (simp add: comp_def)
  from q have p6: "contents (sock_out (clients (tx_msg conn_long_msg_busy 0) ! 0)) = [0x15]"
    by (simp only: b' append_Nil)
  from p1 p2 p3 p4 p5 p6 show ?thesis by (intro conjI)
qed

section \<open>The client library: messages and replies (lib/msg.c, lib/pccc.c)\<close>

text \<open>The states of a message buffer (private.h), bits of an \<open>int\<close>.\<close>

definition MSG_UNUSED :: int where "MSG_UNUSED = 0"
definition MSG_PEND :: int where "MSG_PEND = 1"
definition MSG_TX :: int where "MSG_TX = 2"
definition MSG_ACK_RCVD :: int where "MSG_ACK_RCVD = 4"
definition MSG_REPLY_RCVD :: int where "MSG_REPLY_RCVD = 8"
definition MSG_CMD_DONE :: int where "MSG_CMD_DONE = MSG_TX OR MSG_ACK_RCVD OR MSG_REPLY_RCVD"

datatype PCCC_RET_T = PCCC_SUCCESS | PCCC_WREADY | PCCC_ENOCON | PCCC_ELINK | PCCC_EPARAM
  | PCCC_EFATAL | PCCC_EOVERFLOW | PCCC_ECMD_NOBUF | PCCC_ECMD_NODELIVER | PCCC_ECMD_TIMEOUT
  | PCCC_ECMD_REPLY

datatype READ_MODE_T = READ_MODE_IDLE | READ_MODE_MSG_LEN | READ_MODE_MSG

text \<open>A message buffer. The two function pointers are kept as follows: \<open>notify\<close> is
  the number of the user's callback (None for NULL); \<open>reply\<close> is the reply handler as
  a function from the received message to its return value (True for non-zero) and the
  message buffer as it leaves it. The user data that a handler fills in, the sizes that
  describe it and the error strings are not part of the model.\<close>

record DF1MSG =
  m_state :: int
  m_buf :: BUF
  is_cmd :: bool
  m_tns :: u16
  expires :: int
  notify :: "nat option"
  reply :: "(BUF \<Rightarrow> bool \<times> BUF) option"
  result :: PCCC_RET_T

text \<open>The private data of a connection; \<open>msgs\<close> is the array of \<open>num_msgs\<close> message
  buffers and \<open>cur_msg\<close> an index into it.\<close>

record PCCC_PRIV =
  p_tns :: u16
  p_sock_in :: BUF
  p_sock_out :: BUF
  msg_in :: BUF
  read_mode :: READ_MODE_T
  msg_in_len :: u8
  cur_msg :: nat
  msgs :: "DF1MSG list"

definition msg_flush :: "DF1MSG \<Rightarrow> DF1MSG" where
  "msg_flush m = m\<lparr>m_state := MSG_UNUSED, expires := 0, m_buf := buf_empty (m_buf m)\<rparr>"

definition msg_is_reply :: "PCCC_PRIV \<Rightarrow> bool" where
  "msg_is_reply p = (data (msg_in p) 2 AND 0x40 \<noteq> 0)"

text \<open>\<open>msg_get_tns\<close> reads the 16 bit word stored at \<open>data[4]\<close> (little-endian host).\<close>

definition msg_get_tns :: "BUF \<Rightarrow> u16" where
  "msg_get_tns m = ltohs (word_of_bytes (data m 4) (data m 5))"

definition msg_get_sts :: "BUF \<Rightarrow> u8" where
  "msg_get_sts m = data m 3"

text \<open>\<open>msg_find_cmd\<close>: the index of the first buffer in use that holds a command with
  the transaction number of the received message.\<close>

definition msg_find_cmd :: "PCCC_PRIV \<Rightarrow> nat option" where
  "msg_find_cmd p =
     (let tns = msg_get_tns (msg_in p) in
      find (\<lambda>i. m_state (msgs p ! i) \<noteq> MSG_UNUSED \<and> is_cmd (msgs p ! i)
                 \<and> m_tns (msgs p ! i) = tns)
           [0..<length (msgs p)])"

text \<open>\<open>sts_check\<close> returns non-zero exactly when the STS byte is not zero (the text it
  then writes to the error string is not modelled).\<close>

definition sts_check :: "BUF \<Rightarrow> bool" where
  "sts_check m = (msg_get_sts m \<noteq> 0)"

text \<open>\<open>parse_msg\<close>. The ACK for the daemon is appended before the result of the search
  is looked at, and the return value of that append is not tested. The user's callback
  is code of the application that is handed the connection: \<open>cb f r\<close> is what the
  callback number \<open>f\<close>, called with the result \<open>r\<close>, does to the connection.\<close>

definition parse_msg :: "(nat \<Rightarrow> PCCC_RET_T \<Rightarrow> PCCC_PRIV \<Rightarrow> PCCC_PRIV) \<Rightarrow> PCCC_PRIV \<Rightarrow> PCCC_PRIV" where
  "parse_msg cb p =
     (if msg_is_reply p then
        (let found = msg_find_cmd p;
             p1 = p\<lparr>p_sock_out := snd (buf_append_byte (p_sock_out p) MSG_ACK)\<rparr>
         in case found of
              None \<Rightarrow> p1
            | Some k \<Rightarrow>
                (let m1 = (msgs p1 ! k)\<lparr>m_state := m_state (msgs p1 ! k) OR MSG_REPLY_RCVD\<rparr>;
                     p2 = p1\<lparr>msgs := (msgs p1)[k := m1]\<rparr>
                 in case notify m1 of
                      None \<Rightarrow> p2
                    | Some f \<Rightarrow>
                        (let in1 = (msg_in p2)\<lparr>index := 6\<rparr>;
                             (err, in2) =
                               (if sts_check in1 then (True, in1)
                                else case reply m1 of
                                       None \<Rightarrow> (False, in1)
                                     | Some h \<Rightarrow> h in1);
                             m2 = m1\<lparr>result := (if err then PCCC_ECMD_REPLY else PCCC_SUCCESS)\<rparr>;
                             p3 = p2\<lparr>msg_in := in2\<rparr>
                         in if m_state m2 = MSG_CMD_DONE
                            then cb f (result m2) (p3\<lparr>msgs := (msgs p3)[k := msg_flush m2]\<rparr>)
                            else p3\<lparr>msgs := (msgs p3)[k := m2]\<rparr>)))
      else p)"

section \<open>Replies are acknowledged to the daemon\<close>

lemma msg_find_cmd_None:
  "(msg_find_cmd p = None)
     = (\<forall>m \<in> set (msgs p). \<not> (m_state m \<noteq> MSG_UNUSED \<and> is_cmd m
                                  \<and> m_tns m = msg_get_tns (msg_in p)))"
  by (auto simp: msg_find_cmd_def Let_def find_None_iff all_set_conv_all_nth)

text \<open>A reply that matches no command: the append of the ACK byte is all that
  \<open>parse_msg\<close> does, whatever the callbacks are, and the byte is in the buffer when the
  buffer had room for it.\<close>

lemma parse_msg_stray:
  assumes "msg_is_reply p" and "msg_find_cmd p = None"
  shows "parse_msg cb p = p\<lparr>p_sock_out := snd (buf_append_byte (p_sock_out p) MSG_ACK)\<rparr>"
  using assms by (simp add: parse_msg_def Let_def)

lemma parse_msg_ack:
  assumes "msg_is_reply p" and "msg_find_cmd p = None"
    and "len (p_sock_out p) < maxsz (p_sock_out p)"
  shows "contents (p_sock_out (parse_msg cb p)) = contents (p_sock_out p) @ [0x06]"
  using assms(3) by (simp add: parse_msg_stray[OF assms(1,2)] contents_append_byte MSG_ACK_def)

lemma append_bytes_snoc:
  "append_bytes b (xs @ [x]) = snd (buf_append_byte (append_bytes b xs) x)"
  by (simp add: append_bytes_def)

lemma parse_msg_stray_iter:
  assumes "msg_is_reply p" and "msg_find_cmd p = None"
  shows "(parse_msg cb ^^ n) p
           = p\<lparr>p_sock_out := append_bytes (p_sock_out p) (replicate n MSG_ACK)\<rparr>"
proof (induction n)
  case 0
  show ?case by simp
next
  case (Suc n)
  let ?q = "p\<lparr>p_sock_out := append_bytes (p_sock_out p) (replicate n MSG_ACK)\<rparr>"
  have r: "msg_is_reply ?q" using assms(1) by (simp add: msg_is_reply_def)
  have f: "msg_find_cmd ?q = None" using assms(2) by (simp add: msg_find_cmd_def)
  have "replicate (Suc n) MSG_ACK = replicate n MSG_ACK @ [MSG_ACK]"
    by (simp add: replicate_append_same)
  then show ?case
    by (simp only: funpow.simps o_apply Suc parse_msg_stray[OF r f] append_bytes_snoc) simp
qed

text \<open>A connection with two message buffers: a command with transaction number 7 that
  has been sent and acknowledged by the daemon, and an unused buffer. Its socket output
  buffer (300 bytes) is empty. The replies that arrive have CMD 0x4f; the first ones
  carry transaction number 9, which no command has, and then comes the reply to the
  command.\<close>

definition pccc_stray_reply :: PCCC_PRIV where
  "pccc_stray_reply =
     \<lparr>p_tns = 8, p_sock_in = buf_new (\<lambda>_. 0) 300, p_sock_out = buf_new (\<lambda>_. 0) 300,
      msg_in = buf_of [0x00, 0x05, 0x4f, 0x00, 0x09, 0x00] 300,
      read_mode = READ_MODE_IDLE, msg_in_len = 6, cur_msg = 0,
      msgs = [\<lparr>m_state = 6, m_buf = buf_of [0x05, 0x00, 0x0f, 0x00, 0x07, 0x00] 300,
               is_cmd = True, m_tns = 7, expires = 100, notify = Some 1, reply = None,
               result = PCCC_SUCCESS\<rparr>,
              \<lparr>m_state = 0, m_buf = buf_new (\<lambda>_. 0) 300,
               is_cmd = False, m_tns = 0, expires = 0, notify = None, reply = None,
               result = PCCC_SUCCESS\<rparr>]\<rparr>"

text \<open>The connection after \<open>n\<close> of the stray replies have been parsed and nothing has
  been written to the socket meanwhile, and the same with the reply to the command
  received next.\<close>

definition pccc_after_stray :: "(nat \<Rightarrow> PCCC_RET_T \<Rightarrow> PCCC_PRIV \<Rightarrow> PCCC_PRIV) \<Rightarrow> nat \<Rightarrow> PCCC_PRIV" where
  "pccc_after_stray cb n = (parse_msg cb ^^ n) pccc_stray_reply"

definition pccc_reply_due :: "(nat \<Rightarrow> PCCC_RET_T \<Rightarrow> PCCC_PRIV \<Rightarrow> PCCC_PRIV) \<Rightarrow> nat \<Rightarrow> PCCC_PRIV" where
  "pccc_reply_due cb n =
     (pccc_after_stray cb n)\<lparr>msg_in := buf_of [0x00, 0x05, 0x4f, 0x00, 0x07, 0x00] 300\<rparr>"

lemma pccc_stray_reply_stray:
  "msg_is_reply pccc_stray_reply" "msg_find_cmd pccc_stray_reply = None"
  by (simp_all add: pccc_stray_reply_def msg_is_reply_def msg_find_cmd_def msg_get_tns_def
      buf_of_def ltohs_def word_of_bytes_def MSG_UNUSED_def Let_def upt_conv_Cons)

lemma pccc_after_stray_eq:
  "pccc_after_stray cb n
     = pccc_stray_reply\<lparr>p_sock_out := append_bytes (p_sock_out pccc_stray_reply)
                                        (replicate n MSG_ACK)\<rparr>"
  unfolding pccc_after_stray_def by (rule parse_msg_stray_iter[OF pccc_stray_reply_stray])

lemma pccc_sock_out_full:
  "len (p_sock_out (pccc_after_stray cb 300)) = 300"
  "maxsz (p_sock_out (pccc_after_stray cb 300)) = 300"
  "contents (p_sock_out (pccc_after_stray cb 300)) = replicate 300 0x06"
proof -
  let ?b = "p_sock_out pccc_stray_reply"
  have b: "len ?b = 0" "maxsz ?b = 300" "contents ?b = []"
    by (simp_all add: pccc_stray_reply_def buf_new_def buf_empty_def contents_def)
  have l: "len ?b \<le> maxsz ?b" by (simp add: b)
  show "len (p_sock_out (pccc_after_stray cb 300)) = 300"
    using len_append_bytes[OF l, of "replicate 300 MSG_ACK"]
    by (simp add: pccc_after_stray_eq b)
  show "maxsz (p_sock_out (pccc_after_stray cb 300)) = 300"
    by (simp add: pccc_after_stray_eq b)
  show "contents (p_sock_out (pccc_after_stray cb 300)) = replicate 300 0x06"
    using contents_append_bytes[OF l, of "replicate 300 MSG_ACK"]
    by (simp add: pccc_after_stray_eq b MSG_ACK_def)
qed

text \<open>C10. \<open>parse_msg\<close> appends one ACK byte (0x06) to the socket output buffer for
  every reply, matched or not. This fails when the buffer is full, because the result of
  the append is not looked at. After 300 stray replies, each acknowledged with its
  byte, the buffer of 300 bytes is full. The next stray reply is dropped with nothing
  queued for the daemon. The reply to the command gets no ACK either, while the command
  is completed all the same: its buffer is flushed and the user's callback is called
  with PCCC_SUCCESS.\<close>

theorem reply_not_acknowledged_when_full:
  "contents (p_sock_out (pccc_after_stray cb 1)) = [0x06]
   \<and> contents (p_sock_out (pccc_after_stray cb 300)) = replicate 300 0x06
   \<and> len (p_sock_out (pccc_after_stray cb 300)) = maxsz (p_sock_out (pccc_after_stray cb 300))
   \<and> msg_is_reply (pccc_after_stray cb 300)
   \<and> parse_msg cb (pccc_after_stray cb 300) = pccc_after_stray cb 300
   \<and> msg_is_reply (pccc_reply_due cb 300)
   \<and> msg_find_cmd (pccc_reply_due cb 300) = Some 0
   \<and> parse_msg cb (pccc_reply_due cb 300)
       = cb 1 PCCC_SUCCESS
           ((pccc_reply_due cb 300)
              \<lparr>msg_in := (msg_in (pccc_reply_due cb 300))\<lparr>index := 6\<rparr>,
               msgs := (msgs (pccc_reply_due cb 300))
                 [0 := msg_flush ((msgs (pccc_reply_due cb 300) ! 0)
                                    \<lparr>m_state := MSG_CMD_DONE, result := PCCC_SUCCESS\<rparr>)]\<rparr>)"
proof -
  let ?p = "pccc_after_stray cb 300"
  let ?q = "pccc_reply_due cb 300"
  note f = pccc_sock_out_full[of cb]
  have a1: "contents (p_sock_out (pccc_after_stray cb 1)) = [0x06]"
    by (simp add: pccc_after_stray_eq pccc_stray_reply_def buf_new_def buf_empty_def
        buf_append_byte_def contents_def MSG_ACK_def)
  have a2: "len (p_sock_out ?p) = maxsz (p_sock_out ?p)" by (simp add: f)
  have r: "msg_is_reply ?p" "msg_find_cmd ?p = None"
    using pccc_stray_reply_stray
    by (simp_all add: pccc_after_stray_eq msg_is_reply_def msg_find_cmd_def)
  have a3: "parse_msg cb ?p = ?p"
    using a2 by (simp add: parse_msg_stray[OF r] buf_append_byte_def)
  have q: "msg_is_reply ?q" "msg_find_cmd ?q = Some 0"
    by (simp_all add: pccc_reply_due_def pccc_after_stray_eq pccc_stray_reply_def
        msg_is_reply_def msg_find_cmd_def msg_get_tns_def buf_of_def ltohs_def
        word_of_bytes_def MSG_UNUSED_def Let_def upt_conv_Cons)
  have s: "snd (buf_append_byte (p_sock_out ?q) MSG_ACK) = p_sock_out ?q"
    using a2 by (simp add: pccc_reply_due_def buf_append_byte_def)
  have m: "msgs ?q ! 0 = \<lparr>m_state = 6, m_buf = buf_of [0x05, 0x00, 0x0f, 0x00, 0x07, 0x00] 300,
               is_cmd = True, m_tns = 7, expires = 100, notify = Some 1, reply = None,
               result = PCCC_SUCCESS\<rparr>"
    "msg_get_sts ((msg_in ?q)\<lparr>index := 6\<rparr>) = 0"
    by (simp_all add: pccc_reply_due_def pccc_after_stray_eq pccc_stray_reply_def
        msg_get_sts_def buf_of_def)
  have d: "(6 :: int) OR MSG_REPLY_RCVD = MSG_CMD_DONE"
    by (simp add: MSG_REPLY_RCVD_def MSG_CMD_DONE_def MSG_TX_def MSG_ACK_RCVD_def)
  have a4: "parse_msg cb ?q
       = cb 1 PCCC_SUCCESS
           (?q\<lparr>msg_in := (msg_in ?q)\<lparr>index := 6\<rparr>,
               msgs := (msgs ?q)
                 [0 := msg_flush ((msgs ?q ! 0)\<lparr>m_state := MSG_CMD_DONE, result := PCCC_SUCCESS\<rparr>)]\<rparr>)"
    using q
    by (simp add: parse_msg_def Let_def s m sts_check_def d)
  from a1 f(3) a2 r(1) a3 q a4 show ?thesis by (intro conjI)
qed

end
